theory Spec2Isabelle
  imports Main "HOL-Library.Multiset" "HOL-Library.Sublist"
begin

section \<open>The Go library functions the port-spec resolver calls\<close>

text \<open>
  A Go string is a sequence of bytes, here a \<open>string\<close> (a list of 8-bit characters).
  Go's \<open>int\<close> is taken to be 64 bits wide (the size on every 64-bit platform); values of
  that type are HOL integers between \<open>minInt\<close> and \<open>maxInt\<close>, with the wrap-around of
  \<open>port++\<close> written out as \<open>wrap64\<close>.
\<close>

definition maxInt :: int where
  "maxInt = 2 ^ 63 - 1"

definition minInt :: int where
  "minInt = - (2 ^ 63)"

definition wrap64 :: "int \<Rightarrow> int" where
  "wrap64 i = (i + 2 ^ 63) mod 2 ^ 64 - 2 ^ 63"

text \<open>\<open>strings.Split(s, sep)\<close> for a one-byte separator: the pieces between the
  separators, always at least one piece (\<open>Split("", ",")\<close> is \<open>[""]\<close>).\<close>

fun Split :: "string \<Rightarrow> char \<Rightarrow> string list" where
  "Split [] sep = [[]]"
| "Split (c # cs) sep =
     (if c = sep then [] # Split cs sep
      else (case Split cs sep of
              p # ps \<Rightarrow> (c # p) # ps
            | [] \<Rightarrow> [[c]]))"

text \<open>\<open>strings.Contains(s, sub)\<close> for a one-byte \<open>sub\<close>.\<close>

definition Contains :: "string \<Rightarrow> char \<Rightarrow> bool" where
  "Contains s c = (c \<in> set s)"

text \<open>
  \<open>strings.TrimSpace\<close> removes every leading and every trailing white-space rune, as
  \<open>unicode.IsSpace\<close> defines them: the six ASCII bytes tab, line feed, vertical tab, form
  feed, carriage return and space, and the runes U+0085, U+00A0, U+1680, U+2000 to U+200A,
  U+2028, U+2029, U+202F, U+205F and U+3000, which a Go string holds in UTF-8.
  A byte sequence decodes to one of these runes exactly when it is the rune's UTF-8
  encoding, so trimming strips these encodings; any other non-ASCII byte stops it.
\<close>

definition asciiSpace :: "char \<Rightarrow> bool" where
  "asciiSpace c = (c \<in> set [CHR 0x09, CHR 0x0A, CHR 0x0B, CHR 0x0C, CHR 0x0D, CHR 0x20])"

definition unicodeSpaces :: "string list" where
  "unicodeSpaces =
     [[CHR 0xC2, CHR 0x85], [CHR 0xC2, CHR 0xA0], [CHR 0xE1, CHR 0x9A, CHR 0x80],
      [CHR 0xE2, CHR 0x80, CHR 0x80], [CHR 0xE2, CHR 0x80, CHR 0x81],
      [CHR 0xE2, CHR 0x80, CHR 0x82], [CHR 0xE2, CHR 0x80, CHR 0x83],
      [CHR 0xE2, CHR 0x80, CHR 0x84], [CHR 0xE2, CHR 0x80, CHR 0x85],
      [CHR 0xE2, CHR 0x80, CHR 0x86], [CHR 0xE2, CHR 0x80, CHR 0x87],
      [CHR 0xE2, CHR 0x80, CHR 0x88], [CHR 0xE2, CHR 0x80, CHR 0x89],
      [CHR 0xE2, CHR 0x80, CHR 0x8A], [CHR 0xE2, CHR 0x80, CHR 0xA8],
      [CHR 0xE2, CHR 0x80, CHR 0xA9], [CHR 0xE2, CHR 0x80, CHR 0xAF],
      [CHR 0xE2, CHR 0x81, CHR 0x9F], [CHR 0xE3, CHR 0x80, CHR 0x80]]"

text \<open>The width in bytes of the white-space rune a string starts with, 0 when it starts
  with none. \<open>us\<close> are the multi-byte encodings (reversed when trimming from the right).\<close>

definition spaceWidth :: "string list \<Rightarrow> string \<Rightarrow> nat" where
  "spaceWidth us s =
     (case s of
        [] \<Rightarrow> 0
      | c # _ \<Rightarrow>
          if asciiSpace c then 1
          else (case find (\<lambda>u. prefix u s) us of
                  Some u \<Rightarrow> length u
                | None \<Rightarrow> 0))"

function strip :: "string list \<Rightarrow> string \<Rightarrow> string" where
  "strip us s = (if spaceWidth us s = 0 then s else strip us (drop (spaceWidth us s) s))"
  by pat_completeness auto
termination
  by (relation "measure (\<lambda>(us, s). length s)") (auto simp: spaceWidth_def split: list.splits)

declare strip.simps [simp del]

definition TrimSpace :: "string \<Rightarrow> string" where
  "TrimSpace s = rev (strip (map rev unicodeSpaces) (rev (strip unicodeSpaces s)))"

text \<open>
  \<open>strconv.Atoi\<close>: an optional sign, then one or more decimal digits, and nothing else;
  the value must fit the 64-bit \<open>int\<close>. Any other string is an error (a syntax error or a
  range error; the resolver only tests \<open>err != nil\<close>), here \<open>None\<close>.
\<close>

definition isDigit :: "char \<Rightarrow> bool" where
  "isDigit c = (48 \<le> (of_char c :: nat) \<and> (of_char c :: nat) \<le> 57)"

definition digitsValue :: "string \<Rightarrow> nat" where
  "digitsValue s = foldl (\<lambda>n ch. n * 10 + ((of_char ch :: nat) - 48)) 0 s"

definition Atoi :: "string \<Rightarrow> int option" where
  "Atoi s =
     (case s of
        [] \<Rightarrow> None
      | c # cs \<Rightarrow>
          (let neg = (c = CHR ''-'');
               ds = (if c = CHR ''-'' \<or> c = CHR ''+'' then cs else s)
           in if ds = [] \<or> \<not> list_all isDigit ds then None
              else if neg then
                (if int (digitsValue ds) > 2 ^ 63 then None else Some (- int (digitsValue ds)))
              else
                (if int (digitsValue ds) \<ge> 2 ^ 63 then None else Some (int (digitsValue ds)))))"

section \<open>The port-spec resolver: \<open>parsePortRange\<close>\<close>

text \<open>
  The five \<open>fmt.Errorf\<close> returns of \<open>parsePortRange\<close>, each with the values its message
  is formatted from:
  \<^item> \<open>RangeFormatError r\<close>: "formato de range invalido: %s" with the trimmed token;
  \<^item> \<open>StartPortError s\<close>: "porta inicial invalida: %s" with \<open>parts[0]\<close>;
  \<^item> \<open>EndPortError s\<close>: "porta final invalida: %s" with \<open>parts[1]\<close>;
  \<^item> \<open>RangeOrderError start end\<close>: "porta inicial maior que porta final: %d > %d";
  \<^item> \<open>PortError r\<close>: "porta invalida: %s" with the trimmed token.
\<close>

datatype parse_error =
    RangeFormatError string
  | StartPortError string
  | EndPortError string
  | RangeOrderError int int
  | PortError string

text \<open>The three failures the specification names.\<close>

datatype error_kind = InvalidRangeFormat | InvalidPortNumber | InvalidRangeOrder

fun kind :: "parse_error \<Rightarrow> error_kind" where
  "kind (RangeFormatError r) = InvalidRangeFormat"
| "kind (StartPortError s) = InvalidPortNumber"
| "kind (EndPortError s) = InvalidPortNumber"
| "kind (RangeOrderError a b) = InvalidRangeOrder"
| "kind (PortError r) = InvalidPortNumber"

text \<open>
  The inner loop \<open>for port := start; port <= end; port++ { ports = append(ports, port) }\<close>.
  \<open>port++\<close> wraps around at \<open>maxInt\<close>, so the loop need not end: not returning is the
  value \<open>None\<close>.
\<close>

partial_function (option) range_loop :: "int \<Rightarrow> int \<Rightarrow> int list \<Rightarrow> int list option" where
  "range_loop port endp ports =
     (if port \<le> endp then range_loop (wrap64 (port + 1)) endp (ports @ [port])
      else Some ports)"

declare range_loop.simps [code]

text \<open>The body of the loop over the comma-separated tokens: \<open>Some (Inl e)\<close> is
  \<open>return nil, e\<close>, \<open>Some (Inr ports)\<close> goes on to the next token with the list so far.\<close>

definition parse_token :: "string \<Rightarrow> int list \<Rightarrow> (parse_error + int list) option" where
  "parse_token r0 ports =
     (let r = TrimSpace r0 in
      if Contains r (CHR ''-'') then
        (let parts = Split r (CHR ''-'') in
         if length parts \<noteq> 2 then Some (Inl (RangeFormatError r))
         else (case Atoi (parts ! 0) of
                 None \<Rightarrow> Some (Inl (StartPortError (parts ! 0)))
               | Some start \<Rightarrow>
                   (case Atoi (parts ! 1) of
                      None \<Rightarrow> Some (Inl (EndPortError (parts ! 1)))
                    | Some endp \<Rightarrow>
                        if start > endp then Some (Inl (RangeOrderError start endp))
                        else map_option Inr (range_loop start endp ports))))
      else (case Atoi r of
              None \<Rightarrow> Some (Inl (PortError r))
            | Some port \<Rightarrow> Some (Inr (ports @ [port]))))"

fun parse_loop :: "string list \<Rightarrow> int list \<Rightarrow> (parse_error + int list) option" where
  "parse_loop [] ports = Some (Inr ports)"
| "parse_loop (r # ranges) ports =
     (case parse_token r ports of
        None \<Rightarrow> None
      | Some (Inl e) \<Rightarrow> Some (Inl e)
      | Some (Inr ports') \<Rightarrow> parse_loop ranges ports')"

definition parsePortRange :: "string \<Rightarrow> (parse_error + int list) option" where
  "parsePortRange portRange =
     (if portRange = [] then Some (Inr [])
      else parse_loop (Split portRange (CHR '','')) [])"

section \<open>The vocabulary of the specification for the resolver\<close>

text \<open>
  The tokens of a specification are the comma-separated pieces, trimmed. A range token is
  one with a hyphen; \<open>start_text\<close> and \<open>end_text\<close> are its two sides.
\<close>

definition tokens :: "string \<Rightarrow> string list" where
  "tokens spec = map TrimSpace (Split spec (CHR '',''))"

definition is_range :: "string \<Rightarrow> bool" where
  "is_range t = Contains t (CHR ''-'')"

definition start_text :: "string \<Rightarrow> string" where
  "start_text t = Split t (CHR ''-'') ! 0"

definition end_text :: "string \<Rightarrow> string" where
  "end_text t = Split t (CHR ''-'') ! 1"

definition valid_integer :: "string \<Rightarrow> bool" where
  "valid_integer s = (Atoi s \<noteq> None)"

text \<open>What a token denotes: a single integer, or every integer of an inclusive range
  written with exactly one hyphen; \<open>None\<close> for any other token. A specification is valid when
  it is empty or each of its tokens denotes ports, and then \<open>spec_resolve\<close> is the list the
  specification asks for, in token order.\<close>

definition token_ports :: "string \<Rightarrow> int list option" where
  "token_ports t =
     (if is_range t then
        (case Split t (CHR ''-'') of
           [a, b] \<Rightarrow>
             (case (Atoi a, Atoi b) of
                (Some x, Some y) \<Rightarrow> if x \<le> y then Some [x..y] else None
              | _ \<Rightarrow> None)
         | _ \<Rightarrow> None)
      else map_option (\<lambda>n. [n]) (Atoi t))"

definition valid_spec :: "string \<Rightarrow> bool" where
  "valid_spec spec = (spec = [] \<or> list_all (\<lambda>t. token_ports t \<noteq> None) (tokens spec))"

definition spec_resolve :: "string \<Rightarrow> int list" where
  "spec_resolve spec =
     (if spec = [] then []
      else concat (map (\<lambda>t. case token_ports t of Some ps \<Rightarrow> ps | None \<Rightarrow> []) (tokens spec)))"

definition ends_at_maxInt :: "string \<Rightarrow> bool" where
  "ends_at_maxInt t = (is_range t \<and> Atoi (end_text t) = Some maxInt)"

text \<open>The failure the specification names for a token, checked in the order format,
  endpoints, order; \<open>None\<close> for a token that denotes ports.\<close>

definition spec_token_failure :: "string \<Rightarrow> error_kind option" where
  "spec_token_failure t =
     (if is_range t then
        (if length (Split t (CHR ''-'')) \<noteq> 2 then Some InvalidRangeFormat
         else (case (Atoi (start_text t), Atoi (end_text t)) of
                 (Some a, Some b) \<Rightarrow> if a > b then Some InvalidRangeOrder else None
               | _ \<Rightarrow> Some InvalidPortNumber))
      else if valid_integer t then None else Some InvalidPortNumber)"

text \<open>A token resolves when the loop body returns normally on it; a specification fails
  with a kind when \<open>parsePortRange\<close> returns an error of that kind. \<open>names_token e r\<close>: the
  values the message of \<open>e\<close> is formatted from are the token \<open>r\<close>, the part of it that is
  not an integer, or its two endpoints.\<close>

definition resolves :: "string \<Rightarrow> bool" where
  "resolves t = (case parse_token t [] of Some (Inr ps) \<Rightarrow> True | _ \<Rightarrow> False)"

definition fails_with :: "string \<Rightarrow> error_kind \<Rightarrow> bool" where
  "fails_with spec k = (case parsePortRange spec of Some (Inl e) \<Rightarrow> kind e = k | _ \<Rightarrow> False)"

fun names_token :: "parse_error \<Rightarrow> string \<Rightarrow> bool" where
  "names_token (RangeFormatError x) r = (x = r)"
| "names_token (StartPortError x) r = (x = start_text r)"
| "names_token (EndPortError x) r = (x = end_text r)"
| "names_token (RangeOrderError a b) r = (Atoi (start_text r) = Some a \<and> Atoi (end_text r) = Some b)"
| "names_token (PortError x) r = (x = r)"

text \<open>The first offending token of a specification is the first one for which the
  specification names a failure. \<open>loops_before_failure\<close>: a token before it is a range that
  ends at the largest \<open>int\<close>.\<close>

definition first_offending :: "string \<Rightarrow> string option" where
  "first_offending spec = find (\<lambda>t. spec_token_failure t \<noteq> None) (tokens spec)"

definition loops_before_failure :: "string \<Rightarrow> bool" where
  "loops_before_failure spec =
     list_ex ends_at_maxInt (takeWhile (\<lambda>t. spec_token_failure t = None) (tokens spec))"

text \<open>Specifications written with white space around the tokens: \<open>pads\<close> lists each
  token \<open>t\<close> with the ASCII white space \<open>l\<close> before and \<open>r\<close> after it; \<open>spaced\<close> is the
  specification as written, \<open>unspaced\<close> the same one without the white space.\<close>

fun join :: "string list \<Rightarrow> string" where
  "join [] = []"
| "join [t] = t"
| "join (t # u # ts) = t @ CHR '','' # join (u # ts)"

definition spaced :: "(string \<times> string \<times> string) list \<Rightarrow> string" where
  "spaced pads = join (map (\<lambda>(l, t, r). l @ t @ r) pads)"

definition unspaced :: "(string \<times> string \<times> string) list \<Rightarrow> string" where
  "unspaced pads = join (map (\<lambda>(l, t, r). t) pads)"

definition padding_ok :: "(string \<times> string \<times> string) list \<Rightarrow> bool" where
  "padding_ok pads =
     list_all (\<lambda>(l, t, r). list_all asciiSpace l \<and> list_all asciiSpace r \<and> CHR '','' \<notin> set t) pads"

text \<open>Two facts about the multi-byte encodings that the proofs use: none of their
  bytes is an ASCII white-space byte, and all of them are at least 128.\<close>

definition nonAscii :: "string list \<Rightarrow> bool" where
  "nonAscii us = (\<forall>u\<in>set us. \<forall>c\<in>set u. \<not> asciiSpace c)"

definition highBytes :: "string list \<Rightarrow> bool" where
  "highBytes us = (\<forall>u\<in>set us. u \<noteq> [] \<and> (\<forall>c\<in>set u. 128 \<le> (of_char c :: nat)))"

text \<open>Lines 286 to 297 of \<open>main\<close>: the ports to scan are the resolved list, or 1 to 1024
  when that list is empty; \<open>None\<close> when \<open>parsePortRange\<close> returns an error (the program
  exits) or does not return.\<close>

definition main_ports :: "string \<Rightarrow> int list option" where
  "main_ports portRange =
     (case parsePortRange portRange of
        Some (Inr ports) \<Rightarrow> Some (if length ports = 0 then [1..1024] else ports)
      | _ \<Rightarrow> None)"

section \<open>The probe: \<open>scanPort\<close>\<close>

record PortResult =
  Port :: int
  State :: string
  Service :: string

definition commonPorts :: "int \<Rightarrow> string option" where
  "commonPorts = map_of
     [(21, ''FTP''), (22, ''SSH''), (23, ''Telnet''), (25, ''SMTP''), (53, ''DNS''),
      (80, ''HTTP''), (110, ''POP3''), (111, ''RPC''), (135, ''MSRPC''), (139, ''NetBIOS''),
      (143, ''IMAP''), (443, ''HTTPS''), (445, ''SMB''), (993, ''IMAPS''), (995, ''POP3S''),
      (1723, ''PPTP''), (3306, ''MySQL''), (3389, ''RDP''), (5900, ''VNC''),
      (8080, ''HTTP-Proxy'')]"

text \<open>A \<open>time.Duration\<close> is a number of nanoseconds.\<close>

definition Millisecond :: int where
  "Millisecond = 1000000"

text \<open>
  What the network does to one probe is an input of the model. An error value is
  described by the two things \<open>scanPort\<close> asks of it: whether it implements \<open>net.Error\<close>
  (the type assertion \<open>err.(net.Error)\<close>) and what its \<open>Timeout()\<close> returns. A connection
  is described by what \<open>SetReadDeadline\<close> and \<open>Read\<close> return on it. \<open>d.Dial\<close> returns a
  pair of a connection and an error, either of which may be nil.
\<close>

record go_error =
  is_net_Error :: bool
  Timeout :: bool

record conn =
  SetReadDeadline_err :: "go_error option"
  Read_n :: nat
  Read_err :: "go_error option"

type_synonym dial_result = "conn option \<times> go_error option"

text \<open>The calls a probe makes on the network, in order: dialling \<open>host:port\<close> with a
  timeout, setting the read deadline that many nanoseconds from now, reading into a
  buffer of the given size, and the deferred \<open>conn.Close()\<close>.\<close>

datatype net_call = Dial string int int | SetReadDeadline int | Read nat | Close

definition scanPort :: "dial_result \<Rightarrow> string \<Rightarrow> int \<Rightarrow> int \<Rightarrow> PortResult \<times> net_call list" where
  "scanPort d host port timeout =
     (let result = \<lparr>Port = port, State = ''closed'', Service = ''unknown''\<rparr>;
          calls = [Dial host port timeout]
      in case d of
           (Some c, None) \<Rightarrow>
             (let result = result\<lparr>State := ''open''\<rparr> in
              case commonPorts port of
                Some service \<Rightarrow> (result\<lparr>Service := service\<rparr>, calls @ [Close])
              | None \<Rightarrow>
                  (let readTimeout = 200 * Millisecond;
                       calls = calls @ [SetReadDeadline readTimeout]
                   in if SetReadDeadline_err c = None then
                        (let calls = calls @ [Read 1024] in
                         if Read_err c = None
                         then (result\<lparr>Service := ''custom-service''\<rparr>, calls @ [Close])
                         else (result, calls @ [Close]))
                      else (result, calls @ [Close])))
         | (_, Some e) \<Rightarrow>
             if is_net_Error e \<and> Timeout e then (result\<lparr>State := ''filtered''\<rparr>, calls)
             else (result, calls)
         | (None, None) \<Rightarrow> (result, calls))"

text \<open>The words of the specification about a probe: the connection attempt succeeded,
  or it failed because of a timeout; the sizes of the reads and the deadlines among the
  calls; and the contract of \<open>Read\<close> on a TCP connection with a non-empty buffer (it returns
  no error exactly when it read at least one byte).\<close>

definition dial_ok :: "dial_result \<Rightarrow> bool" where
  "dial_ok d = (case d of (Some c, None) \<Rightarrow> True | _ \<Rightarrow> False)"

definition dial_timed_out :: "dial_result \<Rightarrow> bool" where
  "dial_timed_out d = (case d of (_, Some e) \<Rightarrow> is_net_Error e \<and> Timeout e | _ \<Rightarrow> False)"

fun reads :: "net_call list \<Rightarrow> nat list" where
  "reads [] = []"
| "reads (Read n # cs) = n # reads cs"
| "reads (c # cs) = reads cs"

fun deadlines :: "net_call list \<Rightarrow> int list" where
  "deadlines [] = []"
| "deadlines (SetReadDeadline t # cs) = t # deadlines cs"
| "deadlines (c # cs) = deadlines cs"

definition tcp_read :: "conn \<Rightarrow> bool" where
  "tcp_read c = ((Read_err c = None) = (0 < Read_n c))"

text \<open>Network behaviours for examples: a refused connection, a timed-out one, and an
  accepted connection on which the peer stays silent until the read deadline passes (as an
  HTTP server does, which waits for the request).\<close>

definition refused :: go_error where
  "refused = \<lparr>is_net_Error = True, Timeout = False\<rparr>"

definition timed_out :: go_error where
  "timed_out = \<lparr>is_net_Error = True, Timeout = True\<rparr>"

definition silent_conn :: conn where
  "silent_conn = \<lparr>SetReadDeadline_err = None, Read_n = 0, Read_err = Some timed_out\<rparr>"

section \<open>The scheduler and the collector: the goroutines of \<open>main\<close>\<close>

text \<open>
  Lines 306 to 348 of \<open>main\<close> run three kinds of goroutines, modelled as a transition
  system whose steps are the operations on the channels and on the wait group; any
  interleaving of the steps is a run.

  The main goroutine (\<open>main_pc\<close>) is at the head of the loop over the ports still to
  submit (\<open>M_Loop\<close>), has done \<open>wg.Add(1)\<close> and is about to send on \<open>sem\<close> (\<open>M_Acquire\<close>), has
  a slot and is about to start the goroutine (\<open>M_Launch\<close>), is in \<open>wg.Wait()\<close> (\<open>M_Wait\<close>),
  about to close \<open>resultsChan\<close> (\<open>M_Close\<close>), receiving from \<open>done\<close> (\<open>M_WaitDone\<close>), or
  past it (\<open>M_Finished\<close>), where the results are sorted and printed.

  A scan goroutine (\<open>worker\<close>) is about to call \<open>scanPort\<close> (\<open>W_Scan\<close>), about to send its
  result on \<open>resultsChan\<close> (\<open>W_Send\<close>), at the progress message (\<open>W_Progress\<close>), then runs
  its deferred calls, last registered first: the receive from \<open>sem\<close> (\<open>W_Release\<close>) and
  \<open>wg.Done()\<close> (\<open>W_Done\<close>), after which it is gone.

  The collecting goroutine (\<open>collector_pc\<close>) is receiving from \<open>resultsChan\<close> (\<open>C_Recv\<close>),
  handling a result (\<open>C_Process\<close>), about to send on \<open>done\<close> (\<open>C_SendDone\<close>), or gone
  (\<open>C_Exited\<close>). The lines it prints in verbose mode change no state and are left out.
\<close>

datatype main_pc =
    M_Loop "int list"
  | M_Acquire int "int list"
  | M_Launch int "int list"
  | M_Wait
  | M_Close
  | M_WaitDone
  | M_Finished

datatype worker = W_Scan int | W_Send PortResult | W_Progress | W_Release | W_Done

datatype collector_pc = C_Recv | C_Process PortResult | C_SendDone | C_Exited

text \<open>The shared state: the number of values in the buffered channel \<open>sem\<close>, the counter
  of the wait group, whether \<open>resultsChan\<close> is closed, the slice \<open>results\<close>, and whether a
  goroutine has panicked. \<open>handed\<close> records every value passed over \<open>resultsChan\<close>, in
  order. Both \<open>resultsChan\<close> and \<open>done\<close> are unbuffered, so a send and its receive are one
  step.\<close>

record sched =
  main :: main_pc
  workers :: "worker multiset"
  sem :: nat
  wg :: int
  closed :: bool
  collector :: collector_pc
  results :: "PortResult list"
  handed :: "PortResult list"
  panicked :: bool

record config =
  threads :: int
  resolvedIP :: string
  timeoutDuration :: int

text \<open>\<open>make(chan struct{}, threads)\<close> panics when \<open>threads\<close> is negative.\<close>

definition init :: "config \<Rightarrow> int list \<Rightarrow> sched" where
  "init cfg ports =
     \<lparr>main = M_Loop ports, workers = {#}, sem = 0, wg = 0, closed = False,
      collector = C_Recv, results = [], handed = [], panicked = (threads cfg < 0)\<rparr>"

text \<open>The steps. \<open>net p d\<close> says that the network may answer the probe of port \<open>p\<close> with
  \<open>d\<close>. A send on a closed channel panics, and so does a wait-group counter that drops
  below zero.\<close>

inductive step :: "(int \<Rightarrow> dial_result \<Rightarrow> bool) \<Rightarrow> config \<Rightarrow> sched \<Rightarrow> sched \<Rightarrow> bool"
  for net :: "int \<Rightarrow> dial_result \<Rightarrow> bool" and cfg :: config
where
  loop_next:
    "\<not> panicked s \<Longrightarrow> main s = M_Loop (p # ps) \<Longrightarrow>
     step net cfg s (s\<lparr>main := M_Acquire p ps, wg := wg s + 1\<rparr>)"
| loop_exit:
    "\<not> panicked s \<Longrightarrow> main s = M_Loop [] \<Longrightarrow>
     step net cfg s (s\<lparr>main := M_Wait\<rparr>)"
| acquire:
    "\<not> panicked s \<Longrightarrow> main s = M_Acquire p ps \<Longrightarrow> int (sem s) < threads cfg \<Longrightarrow>
     step net cfg s (s\<lparr>main := M_Launch p ps, sem := sem s + 1\<rparr>)"
| launch:
    "\<not> panicked s \<Longrightarrow> main s = M_Launch p ps \<Longrightarrow>
     step net cfg s (s\<lparr>main := M_Loop ps, workers := add_mset (W_Scan p) (workers s)\<rparr>)"
| scan:
    "\<not> panicked s \<Longrightarrow> W_Scan p \<in># workers s \<Longrightarrow> net p d \<Longrightarrow>
     step net cfg s
       (s\<lparr>workers :=
            add_mset (W_Send (fst (scanPort d (resolvedIP cfg) p (timeoutDuration cfg))))
              (workers s - {#W_Scan p#})\<rparr>)"
| handoff:
    "\<not> panicked s \<Longrightarrow> W_Send r \<in># workers s \<Longrightarrow> collector s = C_Recv \<Longrightarrow> \<not> closed s \<Longrightarrow>
     step net cfg s
       (s\<lparr>workers := add_mset W_Progress (workers s - {#W_Send r#}),
          collector := C_Process r, handed := handed s @ [r]\<rparr>)"
| send_closed:
    "\<not> panicked s \<Longrightarrow> W_Send r \<in># workers s \<Longrightarrow> closed s \<Longrightarrow>
     step net cfg s (s\<lparr>panicked := True\<rparr>)"
| progress:
    "\<not> panicked s \<Longrightarrow> W_Progress \<in># workers s \<Longrightarrow>
     step net cfg s (s\<lparr>workers := add_mset W_Release (workers s - {#W_Progress#})\<rparr>)"
| release:
    "\<not> panicked s \<Longrightarrow> W_Release \<in># workers s \<Longrightarrow> 0 < sem s \<Longrightarrow>
     step net cfg s
       (s\<lparr>workers := add_mset W_Done (workers s - {#W_Release#}), sem := sem s - 1\<rparr>)"
| worker_done:
    "\<not> panicked s \<Longrightarrow> W_Done \<in># workers s \<Longrightarrow>
     step net cfg s
       (s\<lparr>workers := workers s - {#W_Done#}, wg := wg s - 1, panicked := (wg s - 1 < 0)\<rparr>)"
| collect:
    "\<not> panicked s \<Longrightarrow> collector s = C_Process r \<Longrightarrow>
     step net cfg s
       (s\<lparr>collector := C_Recv,
          results := (if State r = ''open'' then results s @ [r] else results s)\<rparr>)"
| drained:
    "\<not> panicked s \<Longrightarrow> collector s = C_Recv \<Longrightarrow> closed s \<Longrightarrow>
     step net cfg s (s\<lparr>collector := C_SendDone\<rparr>)"
| wait:
    "\<not> panicked s \<Longrightarrow> main s = M_Wait \<Longrightarrow> wg s = 0 \<Longrightarrow>
     step net cfg s (s\<lparr>main := M_Close\<rparr>)"
| close:
    "\<not> panicked s \<Longrightarrow> main s = M_Close \<Longrightarrow>
     step net cfg s (s\<lparr>main := M_WaitDone, closed := True\<rparr>)"
| finish:
    "\<not> panicked s \<Longrightarrow> main s = M_WaitDone \<Longrightarrow> collector s = C_SendDone \<Longrightarrow>
     step net cfg s (s\<lparr>main := M_Finished, collector := C_Exited\<rparr>)"

inductive reachable :: "(int \<Rightarrow> dial_result \<Rightarrow> bool) \<Rightarrow> config \<Rightarrow> int list \<Rightarrow> sched \<Rightarrow> bool"
  for net :: "int \<Rightarrow> dial_result \<Rightarrow> bool" and cfg :: config and ports :: "int list"
where
  reach_init: "reachable net cfg ports (init cfg ports)"
| reach_step: "reachable net cfg ports s \<Longrightarrow> step net cfg s s' \<Longrightarrow> reachable net cfg ports s'"

text \<open>The scan is complete when the main goroutine is past the receive from \<open>done\<close>.
  \<open>sort.Slice\<close> with the comparison \<open>results[i].Port < results[j].Port\<close> orders the
  results by port; it promises no order among equal ports, and the model takes the stable
  one.\<close>

definition finished :: "sched \<Rightarrow> bool" where
  "finished s = (main s = M_Finished)"

definition final_results :: "sched \<Rightarrow> PortResult list" where
  "final_results s = sort_key Port (results s)"

subsection \<open>Quantities of a state\<close>

text \<open>A scan goroutine is executing until it has given its slot back; \<open>in_flight\<close>
  counts them.\<close>

fun executing :: "worker \<Rightarrow> bool" where
  "executing W_Done = False"
| "executing w = True"

definition in_flight :: "sched \<Rightarrow> nat" where
  "in_flight s = size (filter_mset executing (workers s))"

text \<open>The ports the main goroutine has not launched yet, the slot it holds between
  \<open>sem <- struct{}{}\<close> and \<open>go\<close>, the \<open>wg.Add(1)\<close> it has done for a goroutine it has not
  started, the port a scan goroutine still owes a result for, and the result the collector
  has received but not handled.\<close>

fun main_rest :: "main_pc \<Rightarrow> int list" where
  "main_rest (M_Loop ps) = ps"
| "main_rest (M_Acquire p ps) = p # ps"
| "main_rest (M_Launch p ps) = p # ps"
| "main_rest pc = []"

fun main_ticket :: "main_pc \<Rightarrow> nat" where
  "main_ticket (M_Launch p ps) = 1"
| "main_ticket pc = 0"

fun main_added :: "main_pc \<Rightarrow> int" where
  "main_added (M_Acquire p ps) = 1"
| "main_added (M_Launch p ps) = 1"
| "main_added pc = 0"

fun worker_port :: "worker \<Rightarrow> int multiset" where
  "worker_port (W_Scan p) = {#p#}"
| "worker_port (W_Send r) = {#Port r#}"
| "worker_port w = {#}"

fun pending_result :: "collector_pc \<Rightarrow> PortResult list" where
  "pending_result (C_Process r) = [r]"
| "pending_result pc = []"

definition is_open :: "PortResult \<Rightarrow> bool" where
  "is_open r = (State r = ''open'')"

text \<open>A result is probed when it is what \<open>scanPort\<close> returns for its port on an answer
  the network may give.\<close>

definition probed :: "(int \<Rightarrow> dial_result \<Rightarrow> bool) \<Rightarrow> config \<Rightarrow> PortResult \<Rightarrow> bool" where
  "probed net cfg r =
     (\<exists>d. net (Port r) d \<and> r = fst (scanPort d (resolvedIP cfg) (Port r) (timeoutDuration cfg)))"

fun worker_probed :: "(int \<Rightarrow> dial_result \<Rightarrow> bool) \<Rightarrow> config \<Rightarrow> worker \<Rightarrow> bool" where
  "worker_probed net cfg (W_Send r) = probed net cfg r"
| "worker_probed net cfg w = True"

text \<open>The invariant of the reachable states.\<close>

definition sched_inv :: "(int \<Rightarrow> dial_result \<Rightarrow> bool) \<Rightarrow> config \<Rightarrow> int list \<Rightarrow> sched \<Rightarrow> bool" where
  "sched_inv net cfg ports s =
     (panicked s = (threads cfg < 0)
      \<and> sem s = in_flight s + main_ticket (main s)
      \<and> int (sem s) \<le> max 0 (threads cfg)
      \<and> wg s = int (size (workers s)) + main_added (main s)
      \<and> mset ports =
          mset (map Port (handed s)) + (\<Sum>w\<in>#workers s. worker_port w) + mset (main_rest (main s))
      \<and> filter is_open (handed s) = results s @ filter is_open (pending_result (collector s))
      \<and> closed s = (main s = M_WaitDone \<or> main s = M_Finished)
      \<and> (main s = M_Close \<or> main s = M_WaitDone \<or> main s = M_Finished \<longrightarrow> workers s = {#})
      \<and> (collector s = C_SendDone \<or> collector s = C_Exited \<longrightarrow> closed s)
      \<and> (collector s = C_Exited) = (main s = M_Finished)
      \<and> (\<forall>r\<in>set (handed s). probed net cfg r)
      \<and> (\<forall>w\<in>#workers s. worker_probed net cfg w))"

text \<open>A measure that every step decreases.\<close>

fun main_weight :: "main_pc \<Rightarrow> nat" where
  "main_weight (M_Loop ps) = 9 * length ps + 4"
| "main_weight (M_Acquire p ps) = 9 * length ps + 12"
| "main_weight (M_Launch p ps) = 9 * length ps + 11"
| "main_weight M_Wait = 3"
| "main_weight M_Close = 2"
| "main_weight M_WaitDone = 1"
| "main_weight M_Finished = 0"

fun worker_weight :: "worker \<Rightarrow> nat" where
  "worker_weight (W_Scan p) = 6"
| "worker_weight (W_Send r) = 5"
| "worker_weight W_Progress = 3"
| "worker_weight W_Release = 2"
| "worker_weight W_Done = 1"

fun collector_weight :: "collector_pc \<Rightarrow> nat" where
  "collector_weight C_Recv = 2"
| "collector_weight (C_Process r) = 3"
| "collector_weight C_SendDone = 1"
| "collector_weight C_Exited = 0"

definition weight :: "sched \<Rightarrow> nat" where
  "weight s =
     main_weight (main s) + (\<Sum>w\<in>#workers s. worker_weight w) + collector_weight (collector s)
       + (if panicked s then 0 else 1)"

text \<open>The network answers every dial.\<close>

definition net_total :: "(int \<Rightarrow> dial_result \<Rightarrow> bool) \<Rightarrow> bool" where
  "net_total net = (\<forall>p. \<exists>d. net p d)"

text \<open>The scan goroutine \<open>w\<close> of the state \<open>s\<close> gives its slot back: some steps lead
  from \<open>s\<close> to a state in which \<open>w\<close> has received from \<open>sem\<close> and is at \<open>wg.Done()\<close>,
  every other scan goroutine is where it was, the main goroutine too, and \<open>sem\<close> holds one
  value less.\<close>

definition slot_returned :: "(int \<Rightarrow> dial_result \<Rightarrow> bool) \<Rightarrow> config \<Rightarrow> sched \<Rightarrow> worker \<Rightarrow> bool" where
  "slot_returned net cfg s w =
     (\<exists>s'. (step net cfg)\<^sup>*\<^sup>* s s' \<and> workers s' = add_mset W_Done (workers s - {#w#})
        \<and> sem s' + 1 = sem s \<and> main s' = main s)"

subsection \<open>Example networks and the run that scans one port at a time\<close>

definition any_net :: "int \<Rightarrow> dial_result \<Rightarrow> bool" where
  "any_net p d = True"

definition accept_all :: "int \<Rightarrow> dial_result" where
  "accept_all p = (Some silent_conn, None)"

text \<open>The host of the end-to-end scenario: port 8000 accepts connections, every other
  port refuses them. \<open>http_on_8000\<close> is such a host whose service on port 8000 waits for
  a request.\<close>

definition only_8000 :: "int \<Rightarrow> dial_result \<Rightarrow> bool" where
  "only_8000 p d =
     (case d of
        (Some c, None) \<Rightarrow> p = 8000
      | (None, Some e) \<Rightarrow> p \<noteq> 8000 \<and> \<not> Timeout e
      | _ \<Rightarrow> False)"

definition http_on_8000 :: "int \<Rightarrow> dial_result" where
  "http_on_8000 p = (if p = 8000 then (Some silent_conn, None) else (None, Some refused))"

definition default_config :: config where
  "default_config = \<lparr>threads = 100, resolvedIP = ''127.0.0.1'', timeoutDuration = 500 * Millisecond\<rparr>"

definition probe :: "config \<Rightarrow> (int \<Rightarrow> dial_result) \<Rightarrow> int \<Rightarrow> PortResult" where
  "probe cfg pick p = fst (scanPort (pick p) (resolvedIP cfg) p (timeoutDuration cfg))"

text \<open>\<open>mid rs ps\<close> is the state between two iterations when no goroutine is running:
  the results \<open>rs\<close> have been collected and the ports \<open>ps\<close> remain. \<open>seq_final rs\<close> is the
  final state with the results \<open>rs\<close> collected.\<close>

definition mid :: "PortResult list \<Rightarrow> int list \<Rightarrow> sched" where
  "mid rs ps =
     \<lparr>main = M_Loop ps, workers = {#}, sem = 0, wg = 0, closed = False, collector = C_Recv,
      results = filter is_open rs, handed = rs, panicked = False\<rparr>"

definition seq_final :: "PortResult list \<Rightarrow> sched" where
  "seq_final rs =
     \<lparr>main = M_Finished, workers = {#}, sem = 0, wg = 0, closed = True, collector = C_Exited,
      results = filter is_open rs, handed = rs, panicked = False\<rparr>"

section \<open>Facts about the library functions\<close>

lemma wrap64_id: "minInt \<le> i \<Longrightarrow> i \<le> maxInt \<Longrightarrow> wrap64 i = i"
  by (simp add: wrap64_def minInt_def maxInt_def)

lemma wrap64_range: "minInt \<le> wrap64 i \<and> wrap64 i \<le> maxInt"
proof -
  have "0 \<le> (i + 2 ^ 63) mod (2 ^ 64 :: int)" by simp
  moreover have "(i + 2 ^ 63) mod (2 ^ 64 :: int) < 2 ^ 64" by simp
  ultimately show ?thesis by (simp add: wrap64_def minInt_def maxInt_def)
qed

lemma Split_not_Nil: "Split s c \<noteq> []"
  by (induction s) (auto split: list.splits)

lemma Split_no_sep: "c \<notin> set s \<Longrightarrow> Split s c = [s]"
  by (induction s) auto

lemma Split_append_sep: "c \<notin> set t \<Longrightarrow> Split (t @ c # rest) c = t # Split rest c"
  by (induction t) auto

lemma length_Split: "length (Split s c) = Suc (count_list s c)"
  by (induction s) (auto split: list.splits simp: Split_not_Nil)

lemma Split_join:
  "ts \<noteq> [] \<Longrightarrow> \<forall>t\<in>set ts. CHR '','' \<notin> set t \<Longrightarrow> Split (join ts) (CHR '','') = ts"
  by (induction ts rule: join.induct) (auto simp: Split_no_sep Split_append_sep)

lemma join_eq_Nil: "join ts = [] \<longleftrightarrow> ts = [] \<or> ts = [[]]"
  by (induction ts rule: join.induct) auto

lemma Atoi_range: "Atoi s = Some n \<Longrightarrow> minInt \<le> n \<and> n \<le> maxInt"
  by (auto simp: Atoi_def Let_def minInt_def maxInt_def split: list.splits if_splits)

lemma isDigit_not_sep: "isDigit c \<Longrightarrow> c \<noteq> CHR '','' \<and> c \<noteq> CHR ''-'' \<and> c \<noteq> CHR ''+''"
  by (auto simp: isDigit_def)

lemma isDigit_low: "isDigit c \<Longrightarrow> (of_char c :: nat) < 128 \<and> \<not> asciiSpace c"
  by (auto simp: isDigit_def asciiSpace_def)

lemma Atoi_digits:
  assumes "ds \<noteq> []" "list_all isDigit ds" "int (digitsValue ds) \<le> maxInt"
  shows "Atoi ds = Some (int (digitsValue ds))"
proof -
  from assms obtain c cs where ds: "ds = c # cs" "isDigit c" by (cases ds) auto
  with assms isDigit_not_sep[of c] show ?thesis
    by (simp add: Atoi_def maxInt_def)
qed

subsection \<open>Trimming\<close>

lemma spaceWidth_le: "spaceWidth us s \<le> length s"
  by (auto simp: spaceWidth_def find_Some_iff split: list.splits option.splits
      dest!: prefix_length_le)

lemma strip_ascii_prefix: "list_all asciiSpace l \<Longrightarrow> strip us (l @ x) = strip us x"
proof (induction l)
  case Nil
  then show ?case by simp
next
  case (Cons c l)
  then have "spaceWidth us ((c # l) @ x) = 1" by (simp add: spaceWidth_def)
  then have "strip us ((c # l) @ x) = strip us (l @ x)"
    by (subst strip.simps) simp
  with Cons show ?case by simp
qed

lemma strip_all_ascii: "list_all asciiSpace l \<Longrightarrow> strip us l = []"
  using strip_ascii_prefix[of l us "[]"] by (simp add: strip.simps[of us "[]"] spaceWidth_def)

lemma prefix_append_spaces:
  assumes "\<forall>c\<in>set u. \<not> asciiSpace c" "list_all asciiSpace r"
  shows "prefix u (t @ r) = prefix u t"
proof
  assume "prefix u (t @ r)"
  then have "prefix u t \<or> (\<exists>v. u = t @ v \<and> prefix v r \<and> v \<noteq> [])"
    by (cases "prefix u t") (auto simp: prefix_append)
  then consider "prefix u t" | v where "u = t @ v" "prefix v r" "v \<noteq> []"
    by blast
  then show "prefix u t"
  proof cases
    case 1 then show ?thesis .
  next
    case 2
    then obtain c v' where v: "v = c # v'" by (cases v) auto
    with 2 have "c \<in> set u" "c \<in> set r" by (auto simp: prefix_def)
    with assms show ?thesis by (auto simp: list_all_iff)
  qed
qed auto

lemma spaceWidth_append:
  assumes "nonAscii us" "list_all asciiSpace r" "t \<noteq> []"
  shows "spaceWidth us (t @ r) = spaceWidth us t"
proof -
  have "find (\<lambda>u. prefix u (t @ r)) us = find (\<lambda>u. prefix u t) us"
    using assms(1,2) by (intro find_cong) (auto simp: nonAscii_def prefix_append_spaces)
  with assms(3) show ?thesis by (cases t) (auto simp: spaceWidth_def)
qed

lemma strip_append_spaces:
  "nonAscii us \<Longrightarrow> list_all asciiSpace r \<Longrightarrow>
   strip us (t @ r) = (if strip us t = [] then [] else strip us t @ r)"
proof (induction us t rule: strip.induct)
  case (1 us s)
  show ?case
  proof (cases "s = []")
    case True
    then show ?thesis using 1(3) by (simp add: strip_all_ascii strip.simps[of _ "[]"] spaceWidth_def)
  next
    case False
    then have w: "spaceWidth us (s @ r) = spaceWidth us s"
      using 1(2,3) by (simp add: spaceWidth_append)
    show ?thesis
    proof (cases "spaceWidth us s = 0")
      case True
      then have "strip us s = s" "strip us (s @ r) = s @ r"
        using w by (simp_all add: strip.simps[of us s] strip.simps[of us "s @ r"])
      with False show ?thesis by simp
    next
      case nz: False
      have d: "drop (spaceWidth us s) (s @ r) = drop (spaceWidth us s) s @ r"
        using spaceWidth_le[of us s] by simp
      have "strip us (s @ r) = strip us (drop (spaceWidth us s) s @ r)"
        using nz w d by (subst strip.simps) simp
      also have "\<dots> = (if strip us (drop (spaceWidth us s) s) = [] then []
                        else strip us (drop (spaceWidth us s) s) @ r)"
        using 1(1)[OF nz 1(2,3)] .
      also have "strip us (drop (spaceWidth us s) s) = strip us s"
        using nz by (subst (2) strip.simps) simp
      finally show ?thesis .
    qed
  qed
qed

lemma nonAscii_unicodeSpaces: "nonAscii unicodeSpaces"
  by (simp add: nonAscii_def unicodeSpaces_def asciiSpace_def)

lemma nonAscii_rev: "nonAscii us \<Longrightarrow> nonAscii (map rev us)"
  by (auto simp: nonAscii_def)

lemma TrimSpace_pad:
  assumes "list_all asciiSpace l" "list_all asciiSpace r"
  shows "TrimSpace (l @ t @ r) = TrimSpace t"
proof -
  have r': "list_all asciiSpace (rev r)" using assms(2) by (simp add: list_all_iff)
  have 1: "strip unicodeSpaces (l @ t @ r) = strip unicodeSpaces (t @ r)"
    using assms(1) by (rule strip_ascii_prefix)
  have 2: "strip unicodeSpaces (t @ r) =
      (if strip unicodeSpaces t = [] then [] else strip unicodeSpaces t @ r)"
    using nonAscii_unicodeSpaces assms(2) by (rule strip_append_spaces)
  show ?thesis
  proof (cases "strip unicodeSpaces t = []")
    case True
    with 1 2 show ?thesis by (simp add: TrimSpace_def)
  next
    case False
    with 1 2 show ?thesis by (simp add: TrimSpace_def strip_ascii_prefix[OF r'])
  qed
qed

lemma highBytes_unicodeSpaces: "highBytes unicodeSpaces"
  by (simp add: highBytes_def unicodeSpaces_def)

lemma highBytes_rev: "highBytes us \<Longrightarrow> highBytes (map rev us)"
  by (auto simp: highBytes_def)

lemma find_prefix_low:
  assumes "highBytes us" "(of_char c :: nat) < 128"
  shows "find (\<lambda>u. prefix u (c # cs)) us = None"
proof -
  have "\<not> prefix u (c # cs)" if "u \<in> set us" for u
  proof
    assume p: "prefix u (c # cs)"
    from that assms(1) have ne: "u \<noteq> []" and hi: "\<forall>c\<in>set u. 128 \<le> (of_char c :: nat)"
      by (simp_all add: highBytes_def)
    from ne obtain d v where dv: "u = d # v" by (cases u) simp_all
    with hi have u: "u = d # v" "128 \<le> (of_char d :: nat)" by simp_all
    with p have "d = c" by simp
    with u assms(2) show False by simp
  qed
  then show ?thesis by (simp add: find_None_iff)
qed

lemma spaceWidth_digit:
  "highBytes us \<Longrightarrow> isDigit c \<Longrightarrow> spaceWidth us (c # cs) = 0"
  using find_prefix_low[of us c cs] isDigit_low[of c] by (simp add: spaceWidth_def)

lemma TrimSpace_digits:
  assumes "ds \<noteq> []" "list_all isDigit ds"
  shows "TrimSpace ds = ds"
proof -
  from assms obtain c cs where ds: "ds = c # cs" "isDigit c" by (cases ds) auto
  from assms obtain d es where rv: "rev ds = d # es" "isDigit d"
    by (cases "rev ds") (auto simp: list_all_iff)
  have 1: "strip unicodeSpaces ds = ds"
    using ds spaceWidth_digit[OF highBytes_unicodeSpaces, of c cs] by (subst strip.simps) simp
  have 2: "strip (map rev unicodeSpaces) (rev ds) = rev ds"
    using rv spaceWidth_digit[OF highBytes_rev[OF highBytes_unicodeSpaces], of d es]
    by (subst strip.simps) simp
  show ?thesis by (simp add: TrimSpace_def 1 2)
qed

lemma spaceWidth_strip: "spaceWidth us (strip us s) = 0"
proof (induction us s rule: strip.induct)
  case (1 us s)
  show ?case
  proof (cases "spaceWidth us s = 0")
    case True
    then show ?thesis by (subst strip.simps) simp
  next
    case False
    with 1 show ?thesis by (subst strip.simps) simp
  qed
qed

lemma strip_fixed: "spaceWidth us s = 0 \<Longrightarrow> strip us s = s"
  by (subst strip.simps) simp

lemma strip_drop: "\<exists>k. strip us s = drop k s"
proof (induction us s rule: strip.induct)
  case (1 us s)
  show ?case
  proof (cases "spaceWidth us s = 0")
    case True
    then have "strip us s = drop 0 s" by (simp add: strip_fixed)
    then show ?thesis by blast
  next
    case False
    from 1[OF False] obtain k where "strip us (drop (spaceWidth us s) s) = drop k (drop (spaceWidth us s) s)"
      by blast
    with False have "strip us s = drop (k + spaceWidth us s) s"
      by (subst strip.simps) simp
    then show ?thesis by blast
  qed
qed

lemma spaceWidth_prefix:
  assumes "highBytes us" "spaceWidth us a = 0" "prefix b a"
  shows "spaceWidth us b = 0"
proof (cases b)
  case Nil
  then show ?thesis by (simp add: spaceWidth_def)
next
  case (Cons c b')
  with assms(3) obtain a' where a: "a = c # a'" by (cases a) auto
  from assms(2) a have nsp: "\<not> asciiSpace c"
    by (auto simp: spaceWidth_def split: if_splits)
  have "\<not> prefix u b" if "u \<in> set us" for u
  proof
    assume "prefix u b"
    from this assms(3) have p: "prefix u a" by (rule prefix_order.trans)
    from that assms(1) have "u \<noteq> []" by (simp add: highBytes_def)
    from p that obtain v where "find (\<lambda>u. prefix u a) us = Some v" "prefix v a" "v \<in> set us"
      by (cases "find (\<lambda>u. prefix u a) us") (auto simp: find_None_iff find_Some_iff)
    moreover from this assms(1) have "v \<noteq> []" by (simp add: highBytes_def)
    ultimately have "spaceWidth us a \<noteq> 0" using a nsp by (simp add: spaceWidth_def)
    with assms(2) show False by simp
  qed
  then have "find (\<lambda>u. prefix u b) us = None" by (simp add: find_None_iff)
  with Cons nsp show ?thesis by (simp add: spaceWidth_def)
qed

lemma TrimSpace_idem: "TrimSpace (TrimSpace s) = TrimSpace s"
proof -
  let ?U = unicodeSpaces and ?R = "map rev unicodeSpaces"
  let ?a = "strip ?U s"
  let ?b = "rev (strip ?R (rev ?a))"
  from strip_drop[of ?R "rev ?a"] obtain k where k: "strip ?R (rev ?a) = drop k (rev ?a)" by blast
  then have "?b = take (length ?a - k) ?a" by (simp add: rev_drop)
  then have pb: "prefix ?b ?a" by (simp add: take_is_prefix)
  have "spaceWidth ?U ?b = 0"
    using highBytes_unicodeSpaces spaceWidth_strip pb by (rule spaceWidth_prefix)
  then have 1: "strip ?U ?b = ?b" by (rule strip_fixed)
  have 2: "strip ?R (strip ?R (rev ?a)) = strip ?R (rev ?a)"
    using spaceWidth_strip[of ?R "rev ?a"] by (rule strip_fixed)
  show ?thesis
    unfolding TrimSpace_def 1 by (simp add: 2)
qed

section \<open>The resolver\<close>

subsection \<open>The inner loop\<close>

text \<open>Below \<open>maxInt\<close> the loop appends the range and returns; a range that ends at
  \<open>maxInt\<close> never leaves it, since \<open>port <= end\<close> holds for every \<open>port\<close>.\<close>

lemma range_loop_returns:
  "minInt \<le> s \<Longrightarrow> e < maxInt \<Longrightarrow> range_loop s e ps = Some (ps @ [s..e])"
proof (induction "nat (e + 1 - s)" arbitrary: s ps)
  case 0
  then have "\<not> s \<le> e" by simp
  then show ?case by (subst range_loop.simps) simp
next
  case (Suc n)
  then have le: "s \<le> e" by simp
  have w: "wrap64 (s + 1) = s + 1"
    using Suc.prems le by (intro wrap64_id) simp_all
  have "range_loop (s + 1) e (ps @ [s]) = Some ((ps @ [s]) @ [s + 1..e])"
    using Suc.hyps(2) Suc.prems by (intro Suc.hyps(1)) simp_all
  then show ?case
    using le w by (subst range_loop.simps) (simp add: upto_rec1)
qed

lemma range_loop_Some_below:
  "range_loop s e ps = Some y \<Longrightarrow> e < maxInt \<or> s < minInt \<or> maxInt < s"
proof (rule range_loop.raw_induct
    [where P = "\<lambda>s e ps y. e < maxInt \<or> s < minInt \<or> maxInt < s"])
  fix f port endp ports y
  assume IH: "\<And>s e ps y. f s e ps = Some y \<Longrightarrow> e < maxInt \<or> s < minInt \<or> maxInt < s"
    and eq: "(if port \<le> endp then f (wrap64 (port + 1)) endp (ports @ [port]) else Some ports) = Some y"
  show "endp < maxInt \<or> port < minInt \<or> maxInt < port"
  proof (cases "port \<le> endp")
    case True
    with eq have "f (wrap64 (port + 1)) endp (ports @ [port]) = Some y" by simp
    from IH[OF this] wrap64_range[of "port + 1"] show ?thesis by simp
  next
    case False
    then show ?thesis by linarith
  qed
qed

lemma range_loop_diverges:
  "minInt \<le> s \<Longrightarrow> s \<le> maxInt \<Longrightarrow> range_loop s maxInt ps = None"
  using range_loop_Some_below[of s maxInt ps] by (cases "range_loop s maxInt ps") auto

lemma range_loop_in_range:
  assumes "minInt \<le> s" "s \<le> e" "e \<le> maxInt"
  shows "range_loop s e ps = (if e = maxInt then None else Some (ps @ [s..e]))"
  using assms range_loop_diverges[of s ps] range_loop_returns[of s e ps] by auto

lemma range_loop_acc:
  assumes "Atoi a = Some x" "Atoi b = Some y" "x \<le> y"
  shows "map_option Inr (range_loop x y acc) =
     (case map_option Inr (range_loop x y []) :: (parse_error + int list) option of
        None \<Rightarrow> None
      | Some (Inl e) \<Rightarrow> Some (Inl e)
      | Some (Inr ps) \<Rightarrow> Some (Inr (acc @ ps)))"
proof -
  have "range_loop x y acc = (if y = maxInt then None else Some (acc @ [x..y]))"
    using Atoi_range[OF assms(1)] Atoi_range[OF assms(2)] assms(3)
    by (intro range_loop_in_range) auto
  moreover have "range_loop x y [] = (if y = maxInt then None else Some ([] @ [x..y]))"
    using Atoi_range[OF assms(1)] Atoi_range[OF assms(2)] assms(3)
    by (intro range_loop_in_range) auto
  ultimately show ?thesis by simp
qed

subsection \<open>One token\<close>

lemma two_parts: "length xs = 2 \<Longrightarrow> xs = [xs ! 0, xs ! 1]"
  by (cases xs; cases "tl xs") auto

lemma parse_token_valid:
  assumes "token_ports (TrimSpace r0) = Some ps"
  shows "parse_token r0 acc =
     (if ends_at_maxInt (TrimSpace r0) then None else Some (Inr (acc @ ps)))"
proof (cases "is_range (TrimSpace r0)")
  case False
  with assms show ?thesis
    by (auto simp: parse_token_def token_ports_def is_range_def ends_at_maxInt_def
        split: option.splits)
next
  case True
  with assms obtain a b x y where
    sp: "Split (TrimSpace r0) (CHR ''-'') = [a, b]" and ab: "Atoi a = Some x" "Atoi b = Some y"
    and le: "x \<le> y" and ps: "ps = [x..y]"
    by (auto simp: token_ports_def split: list.splits option.splits if_splits)
  have "range_loop x y acc = (if y = maxInt then None else Some (acc @ [x..y]))"
    using Atoi_range[OF ab(1)] Atoi_range[OF ab(2)] le by (intro range_loop_in_range) auto
  with True sp ab le ps show ?thesis
    by (simp add: parse_token_def is_range_def ends_at_maxInt_def end_text_def)
qed

lemma parse_token_invalid:
  assumes "token_ports (TrimSpace r0) = None"
  shows "\<exists>e. parse_token r0 acc = Some (Inl e) \<and> names_token e (TrimSpace r0)
     \<and> spec_token_failure (TrimSpace r0) = Some (kind e)"
proof (cases "is_range (TrimSpace r0)")
  case False
  with assms show ?thesis
    by (auto simp: parse_token_def token_ports_def is_range_def spec_token_failure_def
        valid_integer_def split: option.splits)
next
  case True
  show ?thesis
  proof (cases "length (Split (TrimSpace r0) (CHR ''-'')) = 2")
    case False
    with True show ?thesis
      by (simp add: parse_token_def is_range_def spec_token_failure_def)
  next
    case len: True
    from two_parts[OF this] obtain a b where sp: "Split (TrimSpace r0) (CHR ''-'') = [a, b]"
      by blast
    with True assms len show ?thesis
      by (auto simp: parse_token_def token_ports_def is_range_def spec_token_failure_def
          valid_integer_def start_text_def end_text_def split: option.splits if_splits)
  qed
qed

lemma spec_token_failure_valid:
  "token_ports t = Some ps \<Longrightarrow> spec_token_failure t = None"
  by (auto simp: token_ports_def spec_token_failure_def valid_integer_def start_text_def
      end_text_def split: if_splits list.splits option.splits)

lemma resolves_iff:
  "resolves t = (token_ports (TrimSpace t) \<noteq> None \<and> \<not> ends_at_maxInt (TrimSpace t))"
proof (cases "token_ports (TrimSpace t)")
  case None
  from parse_token_invalid[OF this, of "[]"] None show ?thesis
    by (auto simp: resolves_def)
next
  case (Some ps)
  from parse_token_valid[OF this, of "[]"] Some show ?thesis
    by (auto simp: resolves_def)
qed

lemma parse_token_acc:
  "parse_token t acc =
     (case parse_token t [] of
        None \<Rightarrow> None
      | Some (Inl e) \<Rightarrow> Some (Inl e)
      | Some (Inr ps) \<Rightarrow> Some (Inr (acc @ ps)))"
proof (cases "Contains (TrimSpace t) (CHR ''-'')")
  case False
  then show ?thesis
    by (cases "Atoi (TrimSpace t)") (simp_all add: parse_token_def Let_def)
next
  case True
  show ?thesis
  proof (cases "length (Split (TrimSpace t) (CHR ''-'')) = 2")
    case False
    with True show ?thesis by (simp add: parse_token_def Let_def)
  next
    case len: True
    show ?thesis
    proof (cases "Atoi (Split (TrimSpace t) (CHR ''-'') ! 0)")
      case None
      with True len show ?thesis by (simp add: parse_token_def Let_def)
    next
      case a: (Some x)
      show ?thesis
      proof (cases "Atoi (Split (TrimSpace t) (CHR ''-'') ! 1)")
        case None
        with True len a show ?thesis by (simp add: parse_token_def Let_def)
      next
        case b: (Some y)
        show ?thesis
        proof (cases "x \<le> y")
          case False
          with True len a b show ?thesis by (simp add: parse_token_def Let_def)
        next
          case le: True
          from range_loop_acc[OF a b le, of acc] True len a b le show ?thesis
            by (simp add: parse_token_def Let_def)
        qed
      qed
    qed
  qed
qed

lemma parse_token_names:
  "parse_token r0 acc = Some (Inl e) \<Longrightarrow> names_token e (TrimSpace r0)"
proof (cases "token_ports (TrimSpace r0)")
  case None
  assume "parse_token r0 acc = Some (Inl e)"
  with parse_token_invalid[OF None, of acc] show ?thesis by auto
next
  case (Some ps)
  assume "parse_token r0 acc = Some (Inl e)"
  with parse_token_valid[OF Some, of acc] show ?thesis by (auto split: if_splits)
qed

lemma parse_token_TrimSpace:
  "TrimSpace a = TrimSpace b \<Longrightarrow> parse_token a ps = parse_token b ps"
  by (simp add: parse_token_def)

lemma parse_token_trimmed: "parse_token (TrimSpace r0) ports = parse_token r0 ports"
  by (rule parse_token_TrimSpace) (rule TrimSpace_idem)

subsection \<open>The loop over the tokens\<close>

lemma parse_loop_TrimSpace:
  "map TrimSpace ts = map TrimSpace ts' \<Longrightarrow> parse_loop ts ps = parse_loop ts' ps"
proof (induction ts arbitrary: ts' ps)
  case Nil
  then show ?case by simp
next
  case (Cons t ts)
  then obtain t' us where ts': "ts' = t' # us" "TrimSpace t = TrimSpace t'"
      "map TrimSpace ts = map TrimSpace us"
    by (cases ts') auto
  have "parse_token t ps = parse_token t' ps"
    using ts'(2) by (rule parse_token_TrimSpace)
  with Cons.IH[OF ts'(3)] ts'(1) show ?case
    by (simp split: option.splits sum.splits)
qed

lemma parse_loop_resolved:
  "list_all resolves ts \<Longrightarrow>
   parse_loop ts acc =
     Some (Inr (acc @ concat (map (\<lambda>t. case token_ports (TrimSpace t) of Some ps \<Rightarrow> ps | None \<Rightarrow> []) ts)))"
proof (induction ts arbitrary: acc)
  case Nil
  then show ?case by simp
next
  case (Cons t ts)
  then obtain ps where ps: "token_ports (TrimSpace t) = Some ps" "\<not> ends_at_maxInt (TrimSpace t)"
    by (auto simp: resolves_iff)
  from parse_token_valid[OF ps(1), of acc] ps(2)
  have "parse_token t acc = Some (Inr (acc @ ps))" by simp
  with Cons ps show ?case by simp
qed

lemma parse_loop_first_unresolved:
  "find (\<lambda>t. \<not> resolves t) ts = Some r \<Longrightarrow>
   parse_loop ts acc = (case parse_token r [] of Some (Inl e) \<Rightarrow> Some (Inl e) | _ \<Rightarrow> None)"
proof (induction ts arbitrary: acc)
  case Nil
  then show ?case by simp
next
  case (Cons t ts)
  show ?case
  proof (cases "resolves t")
    case True
    with Cons show ?thesis
      by (subst parse_loop.simps, subst parse_token_acc)
         (auto simp: resolves_def split: option.splits sum.splits)
  next
    case False
    with Cons.prems have "r = t" by simp
    with False show ?thesis
      by (subst parse_loop.simps, subst parse_token_acc)
         (auto simp: resolves_def split: option.splits sum.splits)
  qed
qed

lemma find_None_list_all: "find (\<lambda>t. \<not> P t) ts = None \<longleftrightarrow> list_all P ts"
  by (induction ts) auto

text \<open>A valid specification none of whose ranges ends at \<open>maxInt\<close> resolves to the list
  it asks for: the singletons and the ranges, in token order.\<close>

lemma parsePortRange_valid:
  assumes "valid_spec spec" "\<not> list_ex ends_at_maxInt (tokens spec)"
  shows "parsePortRange spec = Some (Inr (spec_resolve spec))"
proof (cases "spec = []")
  case True
  then show ?thesis by (simp add: parsePortRange_def spec_resolve_def)
next
  case False
  with assms have "list_all resolves (Split spec (CHR '',''))"
    by (auto simp: valid_spec_def tokens_def list_all_iff list_ex_iff resolves_iff)
  from parse_loop_resolved[OF this, of "[]"] False show ?thesis
    by (simp add: parsePortRange_def spec_resolve_def tokens_def comp_def)
qed

lemma fails_with_iff:
  "fails_with spec k =
     (spec \<noteq> [] \<and>
      (case find (\<lambda>t. \<not> resolves t) (Split spec (CHR '','')) of
         Some r \<Rightarrow> spec_token_failure (TrimSpace r) = Some k
       | None \<Rightarrow> False))"
proof (cases "spec = []")
  case True
  then show ?thesis by (simp add: fails_with_def parsePortRange_def)
next
  case ne: False
  show ?thesis
  proof (cases "find (\<lambda>t. \<not> resolves t) (Split spec (CHR '',''))")
    case None
    then have "list_all resolves (Split spec (CHR '',''))" by (simp add: find_None_list_all)
    from parse_loop_resolved[OF this, of "[]"] None ne show ?thesis
      by (simp add: fails_with_def parsePortRange_def)
  next
    case (Some r)
    note pl = parse_loop_first_unresolved[OF Some, of "[]"]
    show ?thesis
    proof (cases "token_ports (TrimSpace r)")
      case None
      from parse_token_invalid[OF this, of "[]"] pl Some ne show ?thesis
        by (auto simp: fails_with_def parsePortRange_def)
    next
      case (Some ps)
      from find_Some_iff[THEN iffD1, OF \<open>find (\<lambda>t. \<not> resolves t) (Split spec (CHR '','')) = Some r\<close>]
      have "\<not> resolves r" by auto
      with Some have "ends_at_maxInt (TrimSpace r)" by (simp add: resolves_iff)
      with parse_token_valid[OF Some, of "[]"] have "parse_token r [] = None" by simp
      with pl \<open>find (\<lambda>t. \<not> resolves t) (Split spec (CHR '','')) = Some r\<close> ne
        spec_token_failure_valid[OF Some]
      show ?thesis by (simp add: fails_with_def parsePortRange_def)
    qed
  qed
qed

text \<open>In the words of the specification: unless a range that ends at \<open>maxInt\<close> comes
  first, a specification fails with the failure of its first offending token, the error is
  formatted from that token, and a specification with no offending token resolves. After
  such a range \<open>parsePortRange\<close> does not return.\<close>

lemma spec_token_failure_None: "(spec_token_failure t = None) = (token_ports t \<noteq> None)"
proof (cases "token_ports t")
  case (Some ps)
  then show ?thesis by (simp add: spec_token_failure_valid)
next
  case None
  show ?thesis
  proof (cases "is_range t")
    case False
    with None show ?thesis
      by (auto simp: token_ports_def spec_token_failure_def valid_integer_def)
  next
    case True
    show ?thesis
    proof (cases "length (Split t (CHR ''-'')) = 2")
      case False
      with True None show ?thesis by (simp add: spec_token_failure_def)
    next
      case len: True
      from two_parts[OF this] obtain a b where sp: "Split t (CHR ''-'') = [a, b]" by blast
      with True None show ?thesis
        by (auto simp: token_ports_def spec_token_failure_def start_text_def end_text_def
            split: option.splits if_splits)
    qed
  qed
qed

lemma parse_loop_no_offending:
  "\<not> list_ex ends_at_maxInt (takeWhile (\<lambda>t. spec_token_failure t = None) (map TrimSpace ts)) \<Longrightarrow>
   find (\<lambda>t. spec_token_failure t \<noteq> None) (map TrimSpace ts) = None \<Longrightarrow>
   \<exists>ps. parse_loop ts acc = Some (Inr ps)"
proof (induction ts arbitrary: acc)
  case Nil
  then show ?case by simp
next
  case (Cons t ts)
  from Cons.prems(2) have ok: "spec_token_failure (TrimSpace t) = None"
    and rest: "find (\<lambda>t. spec_token_failure t \<noteq> None) (map TrimSpace ts) = None"
    by (simp_all split: if_splits)
  from ok obtain ps where ps: "token_ports (TrimSpace t) = Some ps"
    by (auto simp: spec_token_failure_None)
  from Cons.prems(1) ok have nm: "\<not> ends_at_maxInt (TrimSpace t)"
    and H: "\<not> list_ex ends_at_maxInt
        (takeWhile (\<lambda>t. spec_token_failure t = None) (map TrimSpace ts))"
    by simp_all
  from parse_token_valid[OF ps, of acc] nm
  have "parse_token t acc = Some (Inr (acc @ ps))" by simp
  with Cons.IH[OF H rest, of "acc @ ps"] show ?case by simp
qed

lemma parse_loop_first_offending:
  "\<not> list_ex ends_at_maxInt (takeWhile (\<lambda>t. spec_token_failure t = None) (map TrimSpace ts)) \<Longrightarrow>
   find (\<lambda>t. spec_token_failure t \<noteq> None) (map TrimSpace ts) = Some r \<Longrightarrow>
   \<exists>e. parse_loop ts acc = Some (Inl e) \<and> names_token e r \<and> spec_token_failure r = Some (kind e)"
proof (induction ts arbitrary: acc)
  case Nil
  then show ?case by simp
next
  case (Cons t ts)
  show ?case
  proof (cases "spec_token_failure (TrimSpace t) = None")
    case False
    with Cons.prems(2) have r: "r = TrimSpace t" by simp
    from False have "token_ports (TrimSpace t) = None" by (simp add: spec_token_failure_None)
    from parse_token_invalid[OF this, of acc] r show ?thesis by auto
  next
    case ok: True
    with Cons.prems(2)
    have rest: "find (\<lambda>t. spec_token_failure t \<noteq> None) (map TrimSpace ts) = Some r" by simp
    from ok obtain ps where ps: "token_ports (TrimSpace t) = Some ps"
      by (auto simp: spec_token_failure_None)
    from Cons.prems(1) ok have nm: "\<not> ends_at_maxInt (TrimSpace t)"
      and H: "\<not> list_ex ends_at_maxInt
          (takeWhile (\<lambda>t. spec_token_failure t = None) (map TrimSpace ts))"
      by simp_all
    from parse_token_valid[OF ps, of acc] nm
    have "parse_token t acc = Some (Inr (acc @ ps))" by simp
    with Cons.IH[OF H rest, of "acc @ ps"] show ?thesis by simp
  qed
qed

lemma parse_loop_loops:
  "list_ex ends_at_maxInt (takeWhile (\<lambda>t. spec_token_failure t = None) (map TrimSpace ts)) \<Longrightarrow>
   parse_loop ts acc = None"
proof (induction ts arbitrary: acc)
  case Nil
  then show ?case by simp
next
  case (Cons t ts)
  from Cons.prems have ok: "spec_token_failure (TrimSpace t) = None"
    by (simp split: if_splits)
  then obtain ps where ps: "token_ports (TrimSpace t) = Some ps"
    by (auto simp: spec_token_failure_None)
  show ?case
  proof (cases "ends_at_maxInt (TrimSpace t)")
    case True
    with parse_token_valid[OF ps, of acc] show ?thesis by simp
  next
    case False
    with Cons.prems ok have "list_ex ends_at_maxInt
        (takeWhile (\<lambda>t. spec_token_failure t = None) (map TrimSpace ts))" by simp
    from Cons.IH[OF this, of "acc @ ps"] parse_token_valid[OF ps, of acc] False
    show ?thesis by simp
  qed
qed

lemma fails_with_first_offending:
  assumes "spec \<noteq> []" "\<not> loops_before_failure spec"
  shows "fails_with spec k =
     (case first_offending spec of Some t \<Rightarrow> spec_token_failure t = Some k | None \<Rightarrow> False)"
    and "parsePortRange spec = Some (Inl e) \<Longrightarrow>
      (case first_offending spec of Some t \<Rightarrow> names_token e t | None \<Rightarrow> False)"
proof -
  let ?ts = "Split spec (CHR '','')"
  from assms(2) have H: "\<not> list_ex ends_at_maxInt
      (takeWhile (\<lambda>t. spec_token_failure t = None) (map TrimSpace ?ts))"
    by (simp add: loops_before_failure_def tokens_def)
  have pr: "parsePortRange spec = parse_loop ?ts []"
    using assms(1) by (simp add: parsePortRange_def)
  show "fails_with spec k =
     (case first_offending spec of Some t \<Rightarrow> spec_token_failure t = Some k | None \<Rightarrow> False)"
  proof (cases "first_offending spec")
    case None
    then have "find (\<lambda>t. spec_token_failure t \<noteq> None) (map TrimSpace ?ts) = None"
      by (simp add: first_offending_def tokens_def)
    from parse_loop_no_offending[OF H this, of "[]"] None pr show ?thesis
      by (auto simp: fails_with_def)
  next
    case (Some r)
    then have "find (\<lambda>t. spec_token_failure t \<noteq> None) (map TrimSpace ?ts) = Some r"
      by (simp add: first_offending_def tokens_def)
    from parse_loop_first_offending[OF H this, of "[]"] Some pr show ?thesis
      by (auto simp: fails_with_def)
  qed
  show "case first_offending spec of Some t \<Rightarrow> names_token e t | None \<Rightarrow> False"
    if f: "parsePortRange spec = Some (Inl e)"
  proof (cases "first_offending spec")
    case None
    then have "find (\<lambda>t. spec_token_failure t \<noteq> None) (map TrimSpace ?ts) = None"
      by (simp add: first_offending_def tokens_def)
    from parse_loop_no_offending[OF H this, of "[]"] f pr show ?thesis by auto
  next
    case (Some r)
    then have "find (\<lambda>t. spec_token_failure t \<noteq> None) (map TrimSpace ?ts) = Some r"
      by (simp add: first_offending_def tokens_def)
    from parse_loop_first_offending[OF H this, of "[]"] Some f pr show ?thesis by auto
  qed
qed

lemma loops_before_failure_None:
  "spec \<noteq> [] \<Longrightarrow> loops_before_failure spec \<Longrightarrow> parsePortRange spec = None"
  using parse_loop_loops[of "Split spec (CHR '','')" "[]"]
  by (simp add: loops_before_failure_def tokens_def parsePortRange_def)

lemmas parse_eval = parsePortRange_def parse_token_def TrimSpace_def strip.simps spaceWidth_def
  asciiSpace_def unicodeSpaces_def Contains_def Atoi_def isDigit_def digitsValue_def

lemma fails_with_examples:
  "fails_with ''80,200-100'' InvalidRangeOrder \<and> fails_with ''22-abc'' InvalidPortNumber
   \<and> fails_with ''abc'' InvalidPortNumber \<and> fails_with ''1-2-3'' InvalidRangeFormat"
  by (simp add: fails_with_def parse_eval)

lemma parsePortRange_example:
  "parsePortRange ''22,80,100-200'' = Some (Inr ([22, 80] @ [100..200]))
   \<and> length ([22, 80] @ [100..200 :: int]) = 103"
proof -
  let ?s = "''22,80,100-200''"
  have tk: "tokens ?s = [''22'', ''80'', ''100-200'']"
    by (simp add: tokens_def TrimSpace_def strip.simps spaceWidth_def asciiSpace_def unicodeSpaces_def)
  have tp: "token_ports ''22'' = Some [22]" "token_ports ''80'' = Some [80]"
    "token_ports ''100-200'' = Some [100..200]"
    by (simp_all add: token_ports_def is_range_def Contains_def Atoi_def isDigit_def digitsValue_def)
  have v: "valid_spec ?s" by (simp add: valid_spec_def tk tp del: upto.simps)
  have "Atoi (end_text ''100-200'') \<noteq> Some maxInt"
    by (simp add: end_text_def Atoi_def isDigit_def digitsValue_def maxInt_def)
  then have n: "\<not> list_ex ends_at_maxInt (tokens ?s)"
    by (simp add: tk ends_at_maxInt_def is_range_def Contains_def)
  have r: "spec_resolve ?s = [22, 80] @ [100..200]"
    by (simp add: spec_resolve_def tk tp)
  show ?thesis using parsePortRange_valid[OF v n] r by simp
qed

subsection \<open>The claims about the resolver\<close>

text \<open>
  Claim C7: every valid specification of singletons and inclusive ranges resolves, to the
  singletons and the integers of each range in token order. \<open>parsePortRange_valid\<close> above
  proves this for every valid specification none of whose ranges ends at the largest
  \<open>int\<close>, and \<open>parsePortRange_example\<close> for "22,80,100-200". The specification below is
  valid, a range of the single port \<open>maxInt\<close>, and on it \<open>parsePortRange\<close> does not return:
  \<open>port++\<close> wraps around to \<open>minInt\<close> and the loop goes on appending.
\<close>

theorem C7_range_ending_at_maxInt_never_returns:
  "valid_spec ''9223372036854775807-9223372036854775807''
   \<and> parsePortRange ''9223372036854775807-9223372036854775807'' = None"
proof -
  let ?s = "''9223372036854775807-9223372036854775807''"
  have sp: "Split ?s (CHR '','') = [?s]" by simp
  have tr: "TrimSpace ?s = ?s" by (simp add: TrimSpace_def strip.simps spaceWidth_def
        asciiSpace_def unicodeSpaces_def)
  have parts: "Split ?s (CHR ''-'') = [''9223372036854775807'', ''9223372036854775807'']"
    by simp
  have at: "Atoi ''9223372036854775807'' = Some maxInt"
    by (simp add: Atoi_def isDigit_def digitsValue_def maxInt_def)
  have tp: "token_ports (TrimSpace ?s) = Some [maxInt..maxInt]"
    unfolding tr by (simp add: token_ports_def is_range_def Contains_def parts at del: Split.simps)
  have e: "ends_at_maxInt (TrimSpace ?s)"
    unfolding tr by (simp add: ends_at_maxInt_def is_range_def Contains_def end_text_def parts at del: Split.simps)
  from parse_token_valid[OF tp, of "[]"] e have "parse_token ?s [] = None" by simp
  then have "parsePortRange ?s = None"
    by (simp add: parsePortRange_def sp del: Split.simps)
  moreover have "valid_spec ?s"
    using tp by (simp add: valid_spec_def tokens_def sp tr del: Split.simps)
  ultimately show ?thesis by simp
qed

text \<open>
  Claim C8: resolution fails with InvalidRangeFormat exactly when a range token does not
  split into exactly two parts, with InvalidPortNumber exactly when a singleton or an
  endpoint of a range is not a valid integer, and with InvalidRangeOrder exactly when the
  start of a range exceeds its end; the error names the offending token and no list is
  returned. With the tokens read in order and the checks of a token in the order format,
  endpoints, order, \<open>fails_with_first_offending\<close> above proves this of the first offending
  token for every specification in which no range that ends at the largest \<open>int\<close> comes
  before it (\<open>fails_with_examples\<close> has one specification for each failure). In the
  specification below the singleton "abc" is not a valid integer and is the first offending
  token, but the range before it ends at \<open>maxInt\<close>: the inner loop never ends,
  \<open>parsePortRange\<close> does not return, and no InvalidPortNumber is reported.
\<close>

theorem C8_no_failure_after_range_to_maxInt:
  "spec_token_failure ''abc'' = Some InvalidPortNumber
   \<and> first_offending ''9223372036854775807-9223372036854775807,abc'' = Some ''abc''
   \<and> parsePortRange ''9223372036854775807-9223372036854775807,abc'' = None
   \<and> \<not> fails_with ''9223372036854775807-9223372036854775807,abc'' InvalidPortNumber"
proof -
  let ?m = "''9223372036854775807-9223372036854775807''"
  let ?s = "''9223372036854775807-9223372036854775807,abc''"
  have sp: "Split ?s (CHR '','') = [?m, ''abc'']" by simp
  have tr: "TrimSpace ?m = ?m" "TrimSpace ''abc'' = ''abc''"
    by (simp_all add: TrimSpace_def strip.simps spaceWidth_def asciiSpace_def unicodeSpaces_def)
  have parts: "Split ?m (CHR ''-'') = [''9223372036854775807'', ''9223372036854775807'']"
    by simp
  have at: "Atoi ''9223372036854775807'' = Some maxInt"
    by (simp add: Atoi_def isDigit_def digitsValue_def maxInt_def)
  have tp: "token_ports ?m = Some [maxInt..maxInt]"
    by (simp add: token_ports_def is_range_def Contains_def parts at del: Split.simps)
  have e: "ends_at_maxInt ?m"
    by (simp add: ends_at_maxInt_def is_range_def Contains_def end_text_def parts at
        del: Split.simps)
  have okm: "spec_token_failure ?m = None" using tp by (simp add: spec_token_failure_None)
  have abc: "spec_token_failure ''abc'' = Some InvalidPortNumber"
    by (simp add: spec_token_failure_def is_range_def Contains_def valid_integer_def Atoi_def
        isDigit_def)
  have tk: "tokens ?s = [?m, ''abc'']"
    unfolding tokens_def sp by (simp add: tr del: Split.simps)
  have fo: "first_offending ?s = Some ''abc''"
    unfolding first_offending_def tk using okm abc by simp
  have "loops_before_failure ?s"
    unfolding loops_before_failure_def tk using okm e by simp
  then have n: "parsePortRange ?s = None" by (intro loops_before_failure_None) simp_all
  then have "\<not> fails_with ?s InvalidPortNumber" by (simp add: fails_with_def)
  with abc fo n show ?thesis by simp
qed

text \<open>
  Claim C9, as amended: the resolver checks no bound on the magnitude of a port. A token
  of decimal digits whose value fits the type \<open>int\<close> is appended as it is, whatever its
  size (0 and 70000 are), and a specification of one such token resolves to that integer.
\<close>

theorem C9_unsigned_integers_pass_through:
  assumes "ds \<noteq> []" "list_all isDigit ds" "int (digitsValue ds) \<le> maxInt"
  shows "parse_token ds ports = Some (Inr (ports @ [int (digitsValue ds)]))
     \<and> parsePortRange ds = Some (Inr [int (digitsValue ds)])"
proof -
  have nosep: "CHR '','' \<notin> set ds" "CHR ''-'' \<notin> set ds"
    using assms(2) isDigit_not_sep by (auto simp: list_all_iff)
  have tok: "parse_token ds acc = Some (Inr (acc @ [int (digitsValue ds)]))" for acc
    using nosep(2) Atoi_digits[OF assms] TrimSpace_digits[OF assms(1,2)]
    by (simp add: parse_token_def Contains_def)
  from tok[of "[]"] tok[of ports] assms(1) nosep(1) show ?thesis
    by (simp add: parsePortRange_def Split_no_sep)
qed

theorem C9_witness:
  "parsePortRange ''70000'' = Some (Inr [70000]) \<and> parsePortRange ''0'' = Some (Inr [0])"
  using C9_unsigned_integers_pass_through[of "''70000''" "[]"]
    C9_unsigned_integers_pass_through[of "''0''" "[]"]
  by (simp add: isDigit_def digitsValue_def maxInt_def)

text \<open>Claim C9 as stated also covers negative values. A token with a minus sign contains
  a hyphen, is read as a range, and is rejected: "-1" splits into an empty start and "1".\<close>

theorem C9_negative_token_rejected:
  "parsePortRange ''-1'' = Some (Inl (StartPortError []))"
  by (simp add: parse_eval)

lemma asciiSpace_not_comma: "asciiSpace c \<Longrightarrow> c \<noteq> CHR '',''"
  by (auto simp: asciiSpace_def)

text \<open>
  Claim C10, as amended: every token is trimmed before it is read (the loop body does on
  a token what it does on the trimmed token), so a specification with ASCII white space
  around its tokens resolves as the same specification without the white space, when the
  latter is not empty.
\<close>

theorem C10_spaces_around_tokens:
  assumes "padding_ok pads" "unspaced pads \<noteq> []"
  shows "parse_token r0 ports = parse_token (TrimSpace r0) ports
     \<and> parsePortRange (spaced pads) = parsePortRange (unspaced pads)"
proof -
  let ?f = "\<lambda>(l, t, r). l @ t @ (r :: string)"
  let ?g = "\<lambda>(l :: string, t :: string, r :: string). t"
  from assms(2) have ne: "pads \<noteq> []" by (auto simp: unspaced_def)
  have nc_g: "\<forall>t\<in>set (map ?g pads). CHR '','' \<notin> set t"
    using assms(1) by (auto simp: padding_ok_def list_all_iff)
  have "CHR '','' \<notin> set (l @ t @ r)" if "(l, t, r) \<in> set pads" for l t r
  proof -
    from assms(1) that have "\<forall>c\<in>set l. asciiSpace c" "\<forall>c\<in>set r. asciiSpace c"
      "CHR '','' \<notin> set t"
      by (auto simp: padding_ok_def list_all_iff)
    with asciiSpace_not_comma show ?thesis by auto
  qed
  then have nc_f: "\<forall>t\<in>set (map ?f pads). CHR '','' \<notin> set t"
    by auto
  have sf: "Split (spaced pads) (CHR '','') = map ?f pads"
    unfolding spaced_def using ne nc_f by (intro Split_join) simp_all
  have sg: "Split (unspaced pads) (CHR '','') = map ?g pads"
    unfolding unspaced_def using ne nc_g by (intro Split_join) simp_all
  have tr: "map TrimSpace (map ?f pads) = map TrimSpace (map ?g pads)"
    using assms(1) by (auto simp: padding_ok_def list_all_iff TrimSpace_pad)
  have "spaced pads \<noteq> []"
  proof
    assume "spaced pads = []"
    with ne have "map ?f pads = [[]]" by (simp add: spaced_def join_eq_Nil)
    then have "map ?g pads = [[]]" by (cases pads) auto
    with assms(2) show False by (simp add: unspaced_def)
  qed
  with assms(2) sf sg parse_loop_TrimSpace[OF tr, of "[]"]
  have "parsePortRange (spaced pads) = parsePortRange (unspaced pads)"
    by (simp add: parsePortRange_def)
  with parse_token_trimmed[of r0 ports] show ?thesis by simp
qed

theorem C10_witness:
  "parsePortRange ''22, 80'' = parsePortRange ''22,80''"
  using C10_spaces_around_tokens[of "[([], ''22'', []), ('' '', ''80'', [])]" "[]" "[]"]
  by (simp add: padding_ok_def spaced_def unspaced_def asciiSpace_def)

text \<open>Claim C10 as stated fails for a specification of white space only: without the
  white space it is empty and resolves to the empty list, with it the one token is empty
  after trimming and is rejected as an invalid port.\<close>

theorem C10_blank_spec_fails:
  "padding_ok [('' '', [], [])]
   \<and> parsePortRange (spaced [('' '', [], [])]) = Some (Inl (PortError []))
   \<and> parsePortRange (unspaced [('' '', [], [])]) = Some (Inr [])"
  by (simp add: padding_ok_def spaced_def unspaced_def parse_eval)

section \<open>The probe\<close>

lemma Port_scanPort: "Port (fst (scanPort d h p t)) = p"
  by (auto simp: scanPort_def Let_def split: prod.splits option.splits)

lemma State_scanPort:
  "State (fst (scanPort d host port timeout)) =
     (if dial_ok d then ''open'' else if dial_timed_out d then ''filtered'' else ''closed'')"
  by (auto simp: scanPort_def dial_ok_def dial_timed_out_def Let_def
      split: prod.splits option.splits)

lemma scanPort_listed:
  "commonPorts port = Some name \<Longrightarrow>
   scanPort (Some c, None) host port timeout =
     (\<lparr>Port = port, State = ''open'', Service = name\<rparr>, [Dial host port timeout, Close])"
  by (simp add: scanPort_def Let_def)

lemma scanPort_unlisted:
  "commonPorts port = None \<Longrightarrow>
   scanPort (Some c, None) host port timeout =
     (\<lparr>Port = port, State = ''open'',
       Service = (if SetReadDeadline_err c = None \<and> Read_err c = None then ''custom-service''
                  else ''unknown'')\<rparr>,
      [Dial host port timeout, SetReadDeadline (200 * Millisecond)]
        @ (if SetReadDeadline_err c = None then [Read 1024] else []) @ [Close])"
  by (simp add: scanPort_def Let_def)

lemma scanPort_open_unlisted:
  "commonPorts port = None \<Longrightarrow>
   fst (scanPort (Some c, None) host port timeout) =
     \<lparr>Port = port, State = ''open'',
      Service = (if SetReadDeadline_err c = None \<and> Read_err c = None then ''custom-service''
                 else ''unknown'')\<rparr>"
  by (simp add: scanPort_def Let_def)

lemma commonPorts_8000: "commonPorts 8000 = None"
  by (simp add: commonPorts_def)

text \<open>
  Claim C4: for every host, port and timeout the probe returns a result for that port,
  whose state is open when the connection attempt succeeded, filtered when it failed
  because of a timeout, and closed on any other failure. \<open>scanPort\<close> is a total function
  with no error result: whatever the network answers, a result is returned.
\<close>

theorem C4_probe_classification:
  "Port (fst (scanPort d host port timeout)) = port
   \<and> State (fst (scanPort d host port timeout)) =
       (if dial_ok d then ''open'' else if dial_timed_out d then ''filtered'' else ''closed'')"
  by (auto simp: scanPort_def dial_ok_def dial_timed_out_def Let_def
      split: prod.splits option.splits)

theorem C4_witness:
  "State (fst (scanPort (None, Some timed_out) ''10.0.0.1'' 81 (500 * Millisecond))) = ''filtered''
   \<and> State (fst (scanPort (None, Some refused) ''10.0.0.1'' 81 (500 * Millisecond))) = ''closed''
   \<and> State (fst (scanPort (Some silent_conn, None) ''10.0.0.1'' 81 (500 * Millisecond))) = ''open''"
  using C4_probe_classification[of "(None, Some timed_out)" "''10.0.0.1''" 81 "500 * Millisecond"]
    C4_probe_classification[of "(None, Some refused)" "''10.0.0.1''" 81 "500 * Millisecond"]
    C4_probe_classification[of "(Some silent_conn, None)" "''10.0.0.1''" 81 "500 * Millisecond"]
  by (simp add: dial_ok_def dial_timed_out_def timed_out_def refused_def)

text \<open>What the probe does on an open port: for a port that is in the table it assigns
  the table's name and neither sets a read deadline nor reads; for any other port it sets
  one read deadline, of 200 milliseconds, reads once into a buffer of 1024 bytes if the
  deadline could be set, and names the service custom-service when that read returns no
  error (on a TCP connection: when bytes were read), unknown otherwise.\<close>

lemma scanPort_service_identification:
  "(commonPorts port = Some name \<longrightarrow>
      Service (fst (scanPort (Some c, None) host port timeout)) = name
      \<and> reads (snd (scanPort (Some c, None) host port timeout)) = []
      \<and> deadlines (snd (scanPort (Some c, None) host port timeout)) = [])
   \<and> (commonPorts port = None \<longrightarrow>
      deadlines (snd (scanPort (Some c, None) host port timeout)) = [200 * Millisecond]
      \<and> reads (snd (scanPort (Some c, None) host port timeout)) =
          (if SetReadDeadline_err c = None then [1024] else [])
      \<and> Service (fst (scanPort (Some c, None) host port timeout)) =
          (if SetReadDeadline_err c = None \<and> Read_err c = None then ''custom-service''
           else ''unknown'')
      \<and> (tcp_read c \<longrightarrow>
          Service (fst (scanPort (Some c, None) host port timeout)) =
            (if SetReadDeadline_err c = None \<and> 0 < Read_n c then ''custom-service''
             else ''unknown''))
      \<and> (200 * Millisecond < timeout \<longrightarrow>
          (\<forall>t\<in>set (deadlines (snd (scanPort (Some c, None) host port timeout))). t < timeout)))"
  by (simp add: scanPort_listed scanPort_unlisted tcp_read_def)

text \<open>
  Claim C6: for an open port that is not in the table the probe sets a secondary read
  deadline that is shorter than the connect timeout, reads once, and names the service
  custom-service if bytes were read and unknown otherwise; for a port in the table it
  assigns the table's name with no secondary read. \<open>scanPort_service_identification\<close>
  above proves the reads and the names. The read deadline is the constant 200 milliseconds
  (the comment on it says: a shorter timeout for reading the banner), whatever the connect
  timeout: probing the open port 9999 with a connect timeout of 100 milliseconds, the read
  deadline is 200 milliseconds, which is not shorter.
\<close>

theorem C6_read_deadline_not_shorter:
  "commonPorts 9999 = None
   \<and> State (fst (scanPort (Some silent_conn, None) ''10.0.0.1'' 9999 (100 * Millisecond))) = ''open''
   \<and> deadlines (snd (scanPort (Some silent_conn, None) ''10.0.0.1'' 9999 (100 * Millisecond)))
       = [200 * Millisecond]
   \<and> \<not> 200 * Millisecond < 100 * Millisecond"
  by (simp add: scanPort_def Let_def commonPorts_def silent_conn_def Millisecond_def)

section \<open>The scheduler\<close>

subsection \<open>The invariant\<close>

lemma sched_inv_init: "sched_inv net cfg ports (init cfg ports)"
  by (simp add: sched_inv_def init_def in_flight_def)

lemma member_split: "w \<in># M \<Longrightarrow> \<exists>W. M = add_mset w W"
  by (rule multi_member_split)

lemmas inv_defs = sched_inv_def in_flight_def

lemma main_added_nonneg: "0 \<le> main_added pc"
  by (cases pc) simp_all

lemma inv_step:
  assumes "step net cfg s s'" "sched_inv net cfg ports s"
  shows "sched_inv net cfg ports s'"
  using assms
proof (induction rule: step.induct)
  case (loop_next s p ps)
  then show ?case by (auto simp: inv_defs)
next
  case (loop_exit s)
  then show ?case by (auto simp: inv_defs)
next
  case (acquire s p ps)
  then show ?case by (auto simp: inv_defs)
next
  case (launch s p ps)
  then show ?case by (auto simp: inv_defs)
next
  case (scan s p d)
  from member_split[OF scan(2)] obtain W where W: "workers s = add_mset (W_Scan p) W" by blast
  have "probed net cfg (fst (scanPort d (resolvedIP cfg) p (timeoutDuration cfg)))"
    unfolding probed_def Port_scanPort using scan(3) by (intro exI[of _ d]) simp
  with scan W show ?case by (auto simp: inv_defs Port_scanPort)
next
  case (handoff s r)
  from member_split[OF handoff(2)] obtain W where W: "workers s = add_mset (W_Send r) W" by blast
  with handoff show ?case by (auto simp: inv_defs)
next
  case (send_closed s r)
  then show ?case by (auto simp: inv_defs)
next
  case (progress s)
  from member_split[OF progress(2)] obtain W where W: "workers s = add_mset W_Progress W" by blast
  with progress show ?case by (auto simp: inv_defs)
next
  case (release s)
  from member_split[OF release(2)] obtain W where W: "workers s = add_mset W_Release W" by blast
  with release show ?case by (auto simp: inv_defs)
next
  case (worker_done s)
  from member_split[OF worker_done(2)] obtain W where W: "workers s = add_mset W_Done W" by blast
  with worker_done main_added_nonneg[of "main s"] show ?case by (auto simp: inv_defs)
next
  case (collect s r)
  then show ?case by (auto simp: inv_defs is_open_def)
next
  case (drained s)
  then show ?case by (auto simp: inv_defs)
next
  case (wait s)
  then show ?case by (auto simp: inv_defs)
next
  case (close s)
  then show ?case by (auto simp: inv_defs)
next
  case (finish s)
  then show ?case by (auto simp: inv_defs)
qed

lemma reachable_inv: "reachable net cfg ports s \<Longrightarrow> sched_inv net cfg ports s"
  by (induction rule: reachable.induct) (auto intro: sched_inv_init inv_step)

lemma finished_complete:
  assumes inv: "sched_inv net cfg ports s" and f: "finished s"
  shows "mset (map Port (handed s)) = mset ports" "workers s = {#}" "collector s = C_Exited"
    "results s = filter is_open (handed s)" "closed s" "\<not> panicked s \<or> threads cfg < 0"
  using assms by (auto simp: inv_defs finished_def)

lemma negative_threads_init:
  "reachable net cfg ports s \<Longrightarrow> threads cfg < 0 \<Longrightarrow> s = init cfg ports"
proof (induction rule: reachable.induct)
  case reach_init
  then show ?case by simp
next
  case (reach_step s s')
  then have "panicked s" by (simp add: init_def)
  with reach_step(2) show ?case by (cases rule: step.cases) simp_all
qed

lemma worker_not_panicked:
  assumes "reachable net cfg ports s" "w \<in># workers s"
  shows "\<not> panicked s"
proof (cases "threads cfg < 0")
  case True
  from negative_threads_init[OF assms(1) True] assms(2) show ?thesis by (simp add: init_def)
next
  case False
  with reachable_inv[OF assms(1)] show ?thesis by (simp add: sched_inv_def)
qed

subsection \<open>Every run ends, and only when the scan is complete\<close>

lemma step_weight: "step net cfg s s' \<Longrightarrow> weight s' < weight s"
proof (induction rule: step.induct)
  case (scan s p d)
  from member_split[OF scan(2)] obtain W where "workers s = add_mset (W_Scan p) W" by blast
  with scan show ?case by (simp add: weight_def)
next
  case (handoff s r)
  from member_split[OF handoff(2)] obtain W where "workers s = add_mset (W_Send r) W" by blast
  with handoff show ?case by (simp add: weight_def)
next
  case (progress s)
  from member_split[OF progress(2)] obtain W where "workers s = add_mset W_Progress W" by blast
  with progress show ?case by (simp add: weight_def)
next
  case (release s)
  from member_split[OF release(2)] obtain W where "workers s = add_mset W_Release W" by blast
  with release show ?case by (simp add: weight_def)
next
  case (worker_done s)
  from member_split[OF worker_done(2)] obtain W where "workers s = add_mset W_Done W" by blast
  with worker_done show ?case by (simp add: weight_def)
qed (simp_all add: weight_def)

lemma steps_bound: "(step net cfg ^^ n) s s' \<Longrightarrow> n + weight s' \<le> weight s"
proof (induction n arbitrary: s')
  case 0
  then show ?case by simp
next
  case (Suc n)
  then obtain t where t: "(step net cfg ^^ n) s t" "step net cfg t s'" by auto
  from Suc.IH[OF t(1)] step_weight[OF t(2)] show ?case by simp
qed

lemma weight_init: "0 \<le> threads cfg \<Longrightarrow> weight (init cfg ports) = 9 * length ports + 7"
  by (simp add: weight_def init_def)

lemma worker_can_step:
  assumes inv: "sched_inv net cfg ports s" and np: "\<not> panicked s" and tot: "net_total net"
    and w: "w \<in># workers s"
  shows "\<exists>s'. step net cfg s s'"
proof (cases w)
  case (W_Scan p)
  from tot have "\<exists>d. net p d" unfolding net_total_def by (rule spec)
  then obtain d where "net p d" by (rule exE)
  with w np W_Scan show ?thesis by (blast intro: step.scan)
next
  case (W_Send r)
  from inv w have nc: "\<not> closed s" by (auto simp: sched_inv_def)
  with inv have c: "collector s = C_Recv \<or> (\<exists>r'. collector s = C_Process r')"
    by (cases "collector s") (auto simp: sched_inv_def)
  then show ?thesis
  proof
    assume "collector s = C_Recv"
    with w np nc W_Send show ?thesis by (blast intro: step.handoff)
  next
    assume "\<exists>r'. collector s = C_Process r'"
    with np show ?thesis by (blast intro: step.collect)
  qed
next
  case W_Progress
  with w np show ?thesis by (blast intro: step.progress)
next
  case W_Release
  from member_split[OF w] W_Release obtain W where "workers s = add_mset W_Release W" by blast
  with inv have "0 < sem s" by (simp add: inv_defs)
  with w np W_Release show ?thesis by (blast intro: step.release)
next
  case W_Done
  with w np show ?thesis by (blast intro: step.worker_done)
qed

lemma no_deadlock:
  assumes inv: "sched_inv net cfg ports s" and c: "1 \<le> threads cfg" and tot: "net_total net"
    and nf: "\<not> finished s"
  shows "\<exists>s'. step net cfg s s'"
proof -
  from inv c have np: "\<not> panicked s" by (simp add: sched_inv_def)
  show ?thesis
  proof (cases "main s")
    case (M_Loop ps)
    with np show ?thesis by (cases ps) (blast intro: step.loop_exit step.loop_next)+
  next
    case (M_Acquire p ps)
    show ?thesis
    proof (cases "int (sem s) < threads cfg")
      case True
      with np M_Acquire show ?thesis by (blast intro: step.acquire)
    next
      case False
      with c inv M_Acquire have "0 < size (filter_mset executing (workers s))"
        by (simp add: inv_defs)
      then have "workers s \<noteq> {#}" by auto
      then obtain w where "w \<in># workers s" by (auto simp: multiset_nonemptyE)
      from worker_can_step[OF inv np tot this] show ?thesis .
    qed
  next
    case (M_Launch p ps)
    with np show ?thesis by (blast intro: step.launch)
  next
    case M_Wait
    show ?thesis
    proof (cases "wg s = 0")
      case True
      with np M_Wait show ?thesis by (blast intro: step.wait)
    next
      case False
      with inv M_Wait have "workers s \<noteq> {#}" by (auto simp: inv_defs)
      then obtain w where "w \<in># workers s" by (auto simp: multiset_nonemptyE)
      from worker_can_step[OF inv np tot this] show ?thesis .
    qed
  next
    case M_Close
    with np show ?thesis by (blast intro: step.close)
  next
    case M_WaitDone
    with inv have cl: "closed s" by (simp add: sched_inv_def)
    show ?thesis
    proof (cases "collector s")
      case C_Recv
      with np cl show ?thesis by (blast intro: step.drained)
    next
      case (C_Process r)
      with np show ?thesis by (blast intro: step.collect)
    next
      case C_SendDone
      with np M_WaitDone show ?thesis by (blast intro: step.finish)
    next
      case C_Exited
      with inv M_WaitDone show ?thesis by (simp add: sched_inv_def)
    qed
  next
    case M_Finished
    with nf show ?thesis by (simp add: finished_def)
  qed
qed

subsection \<open>The run that scans one port at a time\<close>

lemma one_round:
  assumes R: "reachable net cfg ports (mid rs (p # ps))" and c: "1 \<le> threads cfg"
    and d: "net p d"
  shows "reachable net cfg ports
    (mid (rs @ [fst (scanPort d (resolvedIP cfg) p (timeoutDuration cfg))]) ps)"
proof -
  let ?r = "fst (scanPort d (resolvedIP cfg) p (timeoutDuration cfg))"
  let ?st = "\<lambda>m W k g col res h.
     \<lparr>main = m, workers = W, sem = k, wg = g, closed = False, collector = col,
      results = res, handed = h, panicked = False\<rparr>"
  let ?res = "filter is_open rs"
  have 0: "reachable net cfg ports (?st (M_Loop (p # ps)) {#} 0 0 C_Recv ?res rs)"
    using R by (simp add: mid_def)
  have 1: "reachable net cfg ports (?st (M_Acquire p ps) {#} 0 1 C_Recv ?res rs)"
    using reach_step[OF 0 step.loop_next[of _ p ps]] by simp
  have 2: "reachable net cfg ports (?st (M_Launch p ps) {#} 1 1 C_Recv ?res rs)"
    using reach_step[OF 1 step.acquire[of _ p ps]] c by simp
  have 3: "reachable net cfg ports (?st (M_Loop ps) {#W_Scan p#} 1 1 C_Recv ?res rs)"
    using reach_step[OF 2 step.launch[of _ p ps]] by simp
  have 4: "reachable net cfg ports (?st (M_Loop ps) {#W_Send ?r#} 1 1 C_Recv ?res rs)"
    using reach_step[OF 3 step.scan[of _ p net d]] d by simp
  have 5: "reachable net cfg ports
      (?st (M_Loop ps) {#W_Progress#} 1 1 (C_Process ?r) ?res (rs @ [?r]))"
    using reach_step[OF 4 step.handoff[of _ ?r]] by simp
  have 6: "reachable net cfg ports
      (?st (M_Loop ps) {#W_Progress#} 1 1 C_Recv (filter is_open (rs @ [?r])) (rs @ [?r]))"
    using reach_step[OF 5 step.collect[of _ ?r]]
    by (cases "State ?r = ''open''") (simp_all add: is_open_def)
  have 7: "reachable net cfg ports
      (?st (M_Loop ps) {#W_Release#} 1 1 C_Recv (filter is_open (rs @ [?r])) (rs @ [?r]))"
    using reach_step[OF 6 step.progress] by simp
  have 8: "reachable net cfg ports
      (?st (M_Loop ps) {#W_Done#} 0 1 C_Recv (filter is_open (rs @ [?r])) (rs @ [?r]))"
    using reach_step[OF 7 step.release] by simp
  have 9: "reachable net cfg ports
      (?st (M_Loop ps) {#} 0 0 C_Recv (filter is_open (rs @ [?r])) (rs @ [?r]))"
    using reach_step[OF 8 step.worker_done] by simp
  then show ?thesis by (simp add: mid_def)
qed

lemma all_rounds:
  assumes c: "1 \<le> threads cfg"
  shows "reachable net cfg ports (mid rs qs) \<Longrightarrow> \<forall>p\<in>set qs. net p (pick p) \<Longrightarrow>
     reachable net cfg ports (mid (rs @ map (probe cfg pick) qs) [])"
proof (induction qs arbitrary: rs)
  case Nil
  then show ?case by simp
next
  case (Cons q qs)
  from one_round[OF Cons.prems(1) c, of "pick q"] Cons.prems(2)
  have "reachable net cfg ports (mid (rs @ [probe cfg pick q]) qs)" by (simp add: probe_def)
  from Cons.IH[OF this] Cons.prems(2) show ?case by simp
qed

lemma last_steps:
  assumes R: "reachable net cfg ports (mid rs [])"
  shows "reachable net cfg ports (seq_final rs)"
proof -
  let ?st = "\<lambda>m cl col.
     \<lparr>main = m, workers = {#}, sem = 0, wg = 0, closed = cl, collector = col,
      results = filter is_open rs, handed = rs, panicked = False\<rparr>"
  have 0: "reachable net cfg ports (?st (M_Loop []) False C_Recv)"
    using R by (simp add: mid_def)
  have 1: "reachable net cfg ports (?st M_Wait False C_Recv)"
    using reach_step[OF 0 step.loop_exit] by simp
  have 2: "reachable net cfg ports (?st M_Close False C_Recv)"
    using reach_step[OF 1 step.wait] by simp
  have 3: "reachable net cfg ports (?st M_WaitDone True C_Recv)"
    using reach_step[OF 2 step.close] by simp
  have 4: "reachable net cfg ports (?st M_WaitDone True C_SendDone)"
    using reach_step[OF 3 step.drained] by simp
  have 5: "reachable net cfg ports (?st M_Finished True C_Exited)"
    using reach_step[OF 4 step.finish] by simp
  then show ?thesis by (simp add: seq_final_def)
qed

lemma sequential_run:
  assumes "1 \<le> threads cfg" "\<forall>p\<in>set ports. net p (pick p)"
  shows "reachable net cfg ports (seq_final (map (probe cfg pick) ports))"
proof -
  have "init cfg ports = mid [] ports" using assms(1) by (simp add: init_def mid_def)
  then have "reachable net cfg ports (mid [] ports)"
    using reach_init[of net cfg ports] by simp
  from all_rounds[OF assms(1) this assms(2)] show ?thesis
    by (auto intro: last_steps)
qed

lemma net_total_any: "net_total any_net"
  by (simp add: net_total_def any_net_def)

lemma Port_probe: "Port (probe cfg pick p) = p"
  by (simp add: probe_def Port_scanPort)

lemma accept_all_open: "is_open (probe cfg accept_all p)"
  by (simp add: probe_def accept_all_def scanPort_def Let_def is_open_def split: option.splits)

subsection \<open>The claims about the scheduler\<close>

lemma step_handed:
  assumes "step net cfg s s'"
  shows "handed s' = handed s
     \<or> (\<exists>r. W_Send r \<in># workers s \<and> collector s = C_Recv \<and> \<not> closed s
            \<and> collector s' = C_Process r \<and> handed s' = handed s @ [r]
            \<and> workers s' = add_mset W_Progress (workers s - {#W_Send r#}))"
  using assms by (cases rule: step.cases) auto

lemma step_new_goroutine:
  assumes "step net cfg s s'" "size (workers s) < size (workers s')"
  shows "\<exists>p ps. main s = M_Launch p ps \<and> main s' = M_Loop ps
     \<and> workers s' = add_mset (W_Scan p) (workers s)"
  using assms
proof (cases rule: step.cases)
  case (scan p d)
  from member_split[OF scan(3)] obtain W where "workers s = add_mset (W_Scan p) W" by blast
  with scan assms(2) show ?thesis by simp
next
  case (handoff r)
  from member_split[OF handoff(3)] obtain W where "workers s = add_mset (W_Send r) W" by blast
  with handoff assms(2) show ?thesis by simp
next
  case progress
  from member_split[OF progress(3)] obtain W where "workers s = add_mset W_Progress W" by blast
  with progress assms(2) show ?thesis by simp
next
  case release
  from member_split[OF release(3)] obtain W where "workers s = add_mset W_Release W" by blast
  with release assms(2) show ?thesis by simp
next
  case worker_done
  from member_split[OF worker_done(3)] obtain W where "workers s = add_mset W_Done W" by blast
  with worker_done assms(2) show ?thesis by simp
qed simp_all

lemma step_probe_returns:
  assumes "step net cfg s s'" "count (workers s') (W_Scan p) < count (workers s) (W_Scan p)"
  shows "\<exists>d. net p d
     \<and> workers s' =
         add_mset (W_Send (fst (scanPort d (resolvedIP cfg) p (timeoutDuration cfg))))
           (workers s - {#W_Scan p#})"
  using assms
proof (cases rule: step.cases)
  case (scan q d)
  with assms(2) have "q = p" by (cases "q = p") simp_all
  with scan have "net p d \<and> workers s' =
      add_mset (W_Send (fst (scanPort d (resolvedIP cfg) p (timeoutDuration cfg))))
        (workers s - {#W_Scan p#})" by simp
  then show ?thesis by (rule exI)
qed (auto split: if_splits)

lemma step_to_finished:
  assumes r: "reachable net cfg ports s" and st: "step net cfg s s'" and f: "finished s'"
  shows "main s = M_WaitDone \<and> collector s = C_SendDone \<and> closed s \<and> workers s = {#}
     \<and> mset (map Port (handed s)) = mset ports \<and> results s = filter is_open (handed s)
     \<and> handed s' = handed s \<and> results s' = results s"
proof -
  note inv = reachable_inv[OF r]
  from st f inv show ?thesis
  proof (cases rule: step.cases)
    case finish
    with inv show ?thesis by (auto simp: inv_defs)
  qed (auto simp: finished_def inv_defs)
qed

text \<open>
  Claim C1: for every ceiling of at least 1 and every list of \<open>n\<close> ports the scan
  completes with exactly \<open>n\<close> results handed to the collector, one for each submitted port,
  and it is complete only after every port was submitted, every probe has ended and every
  result was taken by the collector. For a ceiling of at least 1, a network that answers
  every dial and every reachable state:
  \<^item> the scan completes: a state that is not complete has a step, and no run from the
    initial state has more than \<open>9 * n + 7\<close> steps;
  \<^item> in a complete state the results handed over are as many as the ports and are for
    exactly the ports of the list, with their multiplicities, no port is left to submit, no
    scan goroutine is left, the collector has handled every result and is gone, and no
    goroutine has panicked;
  \<^item> at every moment each port of the list is exactly one of: not yet launched, owed by a
    running scan goroutine, or handed over;
  \<^item> every result handed over or about to be sent is what \<open>scanPort\<close> returns for its port
    on an answer of the network, and every open result handed over is in \<open>results\<close> or
    with the collector;
  \<^item> a goroutine is added only by the main goroutine launching the port it took a slot
    for; a goroutine leaves \<open>scanPort\<close> only with the result of \<open>scanPort\<close> for its port;
    a result is handed over only by a scan goroutine's send meeting the collector's
    receive;
  \<^item> the scan becomes complete only by the main goroutine receiving from \<open>done\<close>, when the
    collector has left its loop, no scan goroutine is left and the results handed over are
    those of all the ports.
\<close>

theorem C1_join_completeness:
  assumes "1 \<le> threads cfg" "net_total net" "reachable net cfg ports s"
  shows "(\<not> finished s \<longrightarrow> (\<exists>s'. step net cfg s s'))
     \<and> (\<forall>n s'. (step net cfg ^^ n) (init cfg ports) s' \<longrightarrow> n \<le> 9 * length ports + 7)
     \<and> (finished s \<longrightarrow>
          length (handed s) = length ports
          \<and> mset (map Port (handed s)) = mset ports
          \<and> main_rest (main s) = []
          \<and> workers s = {#}
          \<and> collector s = C_Exited
          \<and> results s = filter is_open (handed s)
          \<and> \<not> panicked s)
     \<and> mset ports =
          mset (map Port (handed s)) + (\<Sum>w\<in>#workers s. worker_port w) + mset (main_rest (main s))
     \<and> (\<forall>r\<in>set (handed s). probed net cfg r)
     \<and> (\<forall>w\<in>#workers s. worker_probed net cfg w)
     \<and> filter is_open (handed s) = results s @ filter is_open (pending_result (collector s))
     \<and> (\<forall>s'. step net cfg s s' \<and> size (workers s) < size (workers s') \<longrightarrow>
          (\<exists>p ps. main s = M_Launch p ps \<and> main s' = M_Loop ps
             \<and> workers s' = add_mset (W_Scan p) (workers s)))
     \<and> (\<forall>s' p. step net cfg s s' \<and> count (workers s') (W_Scan p) < count (workers s) (W_Scan p) \<longrightarrow>
          (\<exists>d. net p d
             \<and> workers s' =
                 add_mset (W_Send (fst (scanPort d (resolvedIP cfg) p (timeoutDuration cfg))))
                   (workers s - {#W_Scan p#})))
     \<and> (\<forall>s'. step net cfg s s' \<longrightarrow>
          handed s' = handed s
          \<or> (\<exists>r. W_Send r \<in># workers s \<and> collector s = C_Recv \<and> \<not> closed s
                 \<and> collector s' = C_Process r \<and> handed s' = handed s @ [r]
                 \<and> workers s' = add_mset W_Progress (workers s - {#W_Send r#})))
     \<and> (\<forall>s'. step net cfg s s' \<and> finished s' \<longrightarrow>
          main s = M_WaitDone \<and> collector s = C_SendDone \<and> closed s \<and> workers s = {#}
          \<and> mset (map Port (handed s)) = mset ports \<and> results s = filter is_open (handed s)
          \<and> handed s' = handed s \<and> results s' = results s)"
proof -
  note inv = reachable_inv[OF assms(3)]
  have 1: "\<not> finished s \<longrightarrow> (\<exists>s'. step net cfg s s')"
    using no_deadlock[OF inv assms(1,2)] by blast
  have 2: "\<forall>n s'. (step net cfg ^^ n) (init cfg ports) s' \<longrightarrow> n \<le> 9 * length ports + 7"
  proof (intro allI impI)
    fix n s' assume "(step net cfg ^^ n) (init cfg ports) s'"
    from steps_bound[OF this] weight_init[of cfg ports] assms(1)
    show "n \<le> 9 * length ports + 7" by simp
  qed
  have 3: "finished s \<longrightarrow>
          length (handed s) = length ports
          \<and> mset (map Port (handed s)) = mset ports
          \<and> main_rest (main s) = []
          \<and> workers s = {#}
          \<and> collector s = C_Exited
          \<and> results s = filter is_open (handed s)
          \<and> \<not> panicked s"
  proof
    assume f: "finished s"
    from finished_complete[OF inv f] assms(1)
    have a: "mset (map Port (handed s)) = mset ports" "workers s = {#}" "collector s = C_Exited"
      "results s = filter is_open (handed s)" "\<not> panicked s"
      by simp_all
    from a(1) have "size (mset (map Port (handed s))) = size (mset ports)" by simp
    then have "length (handed s) = length ports" by simp
    moreover from f have "main_rest (main s) = []" by (simp add: finished_def)
    ultimately show "length (handed s) = length ports
          \<and> mset (map Port (handed s)) = mset ports
          \<and> main_rest (main s) = []
          \<and> workers s = {#}
          \<and> collector s = C_Exited
          \<and> results s = filter is_open (handed s)
          \<and> \<not> panicked s" using a by simp
  qed
  from inv have 4: "mset ports =
      mset (map Port (handed s)) + (\<Sum>w\<in>#workers s. worker_port w) + mset (main_rest (main s))"
    and 5: "\<forall>r\<in>set (handed s). probed net cfg r"
    and 6: "\<forall>w\<in>#workers s. worker_probed net cfg w"
    and 7: "filter is_open (handed s) = results s @ filter is_open (pending_result (collector s))"
    by (simp_all add: sched_inv_def)
  note 8 = step_new_goroutine[of net cfg s]
  note 9 = step_probe_returns[of net cfg s]
  note 10 = step_handed[of net cfg s]
  note 11 = step_to_finished[OF assms(3)]
  show ?thesis
    apply (intro conjI)
    apply (rule 1)
    apply (rule 2)
    apply (rule 3)
    apply (rule 4)
    apply (rule 5)
    apply (rule 6)
    apply (rule 7)
    using 8 apply blast
    using 9 apply blast
    using 10 apply blast
    using 11 apply blast
    done
qed

theorem C1_witness:
  "finished (seq_final (map (probe default_config accept_all) [22, 80, 443]))
   \<and> length (handed (seq_final (map (probe default_config accept_all) [22, 80, 443]))) = 3
   \<and> map Port (handed (seq_final (map (probe default_config accept_all) [22, 80, 443])))
       = [22, 80, 443]"
proof -
  have c: "1 \<le> threads default_config" by (simp add: default_config_def)
  have r: "reachable any_net default_config [22, 80, 443]
      (seq_final (map (probe default_config accept_all) [22, 80, 443]))"
    using c by (rule sequential_run) (simp add: any_net_def)
  have f: "finished (seq_final (map (probe default_config accept_all) [22, 80, 443]))"
    by (simp add: finished_def seq_final_def)
  from C1_join_completeness[OF c net_total_any r, THEN conjunct2, THEN conjunct2, THEN conjunct1] f
  show ?thesis
    by (simp add: seq_final_def probe_def Port_scanPort)
qed

lemma executing_replace:
  assumes "w \<in># M"
  shows "size (filter_mset executing (add_mset w' (M - {#w#}))) + (if executing w then 1 else 0)
     = size (filter_mset executing M) + (if executing w' then 1 else 0)"
proof -
  from member_split[OF assms] obtain W where "M = add_mset w W" by blast
  then show ?thesis by simp
qed

lemma executing_remove_done:
  assumes "W_Done \<in># M"
  shows "size (filter_mset executing (M - {#W_Done#})) = size (filter_mset executing M)"
proof -
  from member_split[OF assms] obtain W where "M = add_mset W_Done W" by blast
  then show ?thesis by simp
qed

lemma step_tickets:
  assumes "step net cfg s s'"
  shows "(in_flight s < in_flight s' \<longrightarrow> main_ticket (main s) = 1 \<and> sem s' = sem s)
     \<and> (in_flight s' < in_flight s \<longrightarrow> sem s' = sem s - 1)"
  using assms
proof (cases rule: step.cases)
  case (scan p d)
  with executing_replace[OF scan(3), of "W_Send (fst (scanPort d (resolvedIP cfg) p (timeoutDuration cfg)))"]
  show ?thesis by (simp add: in_flight_def)
next
  case (handoff r)
  with executing_replace[OF handoff(3), of W_Progress] show ?thesis by (simp add: in_flight_def)
next
  case progress
  with executing_replace[OF progress(3), of W_Release] show ?thesis by (simp add: in_flight_def)
next
  case release
  with executing_replace[OF release(3), of W_Done] show ?thesis by (simp add: in_flight_def)
next
  case worker_done
  with executing_remove_done[OF worker_done(3)] show ?thesis by (simp add: in_flight_def)
qed (simp_all add: in_flight_def)

lemma release_enabled:
  assumes r: "reachable net cfg ports s" and w: "W_Release \<in># workers s"
  shows "0 < sem s"
    and "step net cfg s
      (s\<lparr>workers := add_mset W_Done (workers s - {#W_Release#}), sem := sem s - 1\<rparr>)"
proof -
  from member_split[OF w] obtain W where "workers s = add_mset W_Release W" by blast
  with reachable_inv[OF r] show pos: "0 < sem s" by (simp add: inv_defs)
  from worker_not_panicked[OF r w] w pos
  show "step net cfg s
      (s\<lparr>workers := add_mset W_Done (workers s - {#W_Release#}), sem := sem s - 1\<rparr>)"
    by (rule step.release)
qed

lemma from_release:
  assumes r: "reachable net cfg ports s" and w: "W_Release \<in># workers s"
  shows "slot_returned net cfg s W_Release"
  unfolding slot_returned_def
proof (intro exI conjI)
  let ?s' = "s\<lparr>workers := add_mset W_Done (workers s - {#W_Release#}), sem := sem s - 1\<rparr>"
  from release_enabled(2)[OF r w] show "(step net cfg)\<^sup>*\<^sup>* s ?s'" by (rule r_into_rtranclp)
  show "workers ?s' = add_mset W_Done (workers s - {#W_Release#})" by simp
  from release_enabled(1)[OF r w] show "sem ?s' + 1 = sem s" by simp
  show "main ?s' = main s" by simp
qed

lemma slot_returned_step:
  assumes st: "step net cfg s s1" and w: "w \<in># workers s"
    and rest: "slot_returned net cfg s1 w1"
    and ws: "workers s1 = add_mset w1 (workers s - {#w#})"
    and same: "sem s1 = sem s" "main s1 = main s"
  shows "slot_returned net cfg s w"
proof -
  from rest obtain s' where s': "(step net cfg)\<^sup>*\<^sup>* s1 s'"
      "workers s' = add_mset W_Done (workers s1 - {#w1#})" "sem s' + 1 = sem s1"
      "main s' = main s1"
    unfolding slot_returned_def by blast
  from st s'(1) have "(step net cfg)\<^sup>*\<^sup>* s s'" by (rule converse_rtranclp_into_rtranclp)
  moreover from s'(2) ws have "workers s' = add_mset W_Done (workers s - {#w#})" by simp
  ultimately show ?thesis using s'(3,4) same unfolding slot_returned_def by auto
qed

lemma from_progress:
  assumes r: "reachable net cfg ports s" and w: "W_Progress \<in># workers s"
  shows "slot_returned net cfg s W_Progress"
proof -
  let ?s1 = "s\<lparr>workers := add_mset W_Release (workers s - {#W_Progress#})\<rparr>"
  from worker_not_panicked[OF r w] w have st: "step net cfg s ?s1" by (rule step.progress)
  from r st have r1: "reachable net cfg ports ?s1" by (rule reach_step)
  have "slot_returned net cfg ?s1 W_Release" using r1 by (rule from_release) simp
  with st w show ?thesis by (rule slot_returned_step) simp_all
qed

lemma from_send_recv:
  assumes r: "reachable net cfg ports s" and w: "W_Send x \<in># workers s"
    and c: "collector s = C_Recv"
  shows "slot_returned net cfg s (W_Send x)"
proof -
  let ?s1 = "s\<lparr>workers := add_mset W_Progress (workers s - {#W_Send x#}),
          collector := C_Process x, handed := handed s @ [x]\<rparr>"
  from reachable_inv[OF r] w have nc: "\<not> closed s" by (auto simp: sched_inv_def)
  from worker_not_panicked[OF r w] w c nc have st: "step net cfg s ?s1" by (rule step.handoff)
  from r st have r1: "reachable net cfg ports ?s1" by (rule reach_step)
  have "slot_returned net cfg ?s1 W_Progress" using r1 by (rule from_progress) simp
  with st w show ?thesis by (rule slot_returned_step) simp_all
qed

lemma from_send:
  assumes r: "reachable net cfg ports s" and w: "W_Send x \<in># workers s"
  shows "slot_returned net cfg s (W_Send x)"
proof -
  from reachable_inv[OF r] w have nc: "\<not> closed s" by (auto simp: sched_inv_def)
  with reachable_inv[OF r] have c: "collector s = C_Recv \<or> (\<exists>y. collector s = C_Process y)"
    by (cases "collector s") (auto simp: sched_inv_def)
  then show ?thesis
  proof
    assume "collector s = C_Recv"
    with r w show ?thesis by (rule from_send_recv)
  next
    assume "\<exists>y. collector s = C_Process y"
    then obtain y where y: "collector s = C_Process y" by blast
    let ?s0 = "s\<lparr>collector := C_Recv,
          results := (if State y = ''open'' then results s @ [y] else results s)\<rparr>"
    from worker_not_panicked[OF r w] y have st: "step net cfg s ?s0" by (rule step.collect)
    from r st have r0: "reachable net cfg ports ?s0" by (rule reach_step)
    have "slot_returned net cfg ?s0 (W_Send x)" using r0 by (rule from_send_recv) (simp_all add: w)
    then obtain s' where s': "(step net cfg)\<^sup>*\<^sup>* ?s0 s'"
        "workers s' = add_mset W_Done (workers ?s0 - {#W_Send x#})" "sem s' + 1 = sem ?s0"
        "main s' = main ?s0"
      unfolding slot_returned_def by blast
    from st s'(1) have "(step net cfg)\<^sup>*\<^sup>* s s'" by (rule converse_rtranclp_into_rtranclp)
    with s'(2,3,4) show ?thesis unfolding slot_returned_def by auto
  qed
qed

lemma from_scan:
  assumes r: "reachable net cfg ports s" and w: "W_Scan p \<in># workers s" and d: "net p d"
  shows "slot_returned net cfg s (W_Scan p)"
proof -
  let ?x = "fst (scanPort d (resolvedIP cfg) p (timeoutDuration cfg))"
  let ?s1 = "s\<lparr>workers := add_mset (W_Send ?x) (workers s - {#W_Scan p#})\<rparr>"
  from worker_not_panicked[OF r w] w d have st: "step net cfg s ?s1" by (rule step.scan)
  from r st have r1: "reachable net cfg ports ?s1" by (rule reach_step)
  have "slot_returned net cfg ?s1 (W_Send ?x)" using r1 by (rule from_send) simp
  with st w show ?thesis by (rule slot_returned_step) simp_all
qed

lemma executing_slot_returned:
  assumes r: "reachable net cfg ports s" and tot: "net_total net"
    and w: "w \<in># workers s" and e: "executing w"
  shows "slot_returned net cfg s w"
proof (cases w)
  case (W_Scan p)
  from tot have "\<exists>d. net p d" unfolding net_total_def by (rule spec)
  then obtain d where "net p d" by (rule exE)
  with r w W_Scan show ?thesis by (auto intro: from_scan)
next
  case (W_Send x)
  with r w show ?thesis by (auto intro: from_send)
next
  case W_Progress
  with r w show ?thesis by (auto intro: from_progress)
next
  case W_Release
  with r w show ?thesis by (auto intro: from_release)
next
  case W_Done
  with e show ?thesis by simp
qed

lemma finished_slots_back:
  assumes "reachable net cfg ports s" "finished s"
  shows "in_flight s = 0" "sem s = 0"
  using reachable_inv[OF assms(1)] assms(2) by (auto simp: inv_defs finished_def)

text \<open>
  Claim C2: at every moment of a scan with ceiling \<open>c\<close> at most \<open>c\<close> probes are in flight; a
  slot is taken by the submitting goroutine before a probe is launched and given back
  when the probe ends, whatever its outcome. In every reachable state:
  \<^item> the goroutines in flight are at most \<open>c\<close>, and the slots taken are those of the
    goroutines in flight and the one the main goroutine holds for the probe it is about
    to launch;
  \<^item> a step that adds a goroutine in flight finds that slot taken already, and a step that
    takes one away gives a slot back;
  \<^item> a goroutine at its deferred receive from \<open>sem\<close> is never blocked: \<open>sem\<close> is not empty
    and the receive is a step, after which \<open>sem\<close> holds one value less;
  \<^item> when the network answers every dial, every goroutine in flight gets there: whatever
    the network answers to its dial and whatever result it has, some steps (its own and
    the collector's) lead to the state where it has given its slot back;
  \<^item> when the scan is complete no goroutine is in flight and every slot has been given
    back;
  \<^item> for a ceiling of at least 1 and such a network, a scan that is not complete is never
    stuck: no slot is held for ever.
\<close>

theorem C2_concurrency_ceiling:
  assumes "reachable net cfg ports s"
  shows "int (in_flight s) \<le> max 0 (threads cfg)
     \<and> sem s = in_flight s + main_ticket (main s)
     \<and> (\<forall>s'. step net cfg s s' \<and> in_flight s < in_flight s' \<longrightarrow>
          main_ticket (main s) = 1 \<and> sem s' = sem s)
     \<and> (\<forall>s'. step net cfg s s' \<and> in_flight s' < in_flight s \<longrightarrow> sem s' = sem s - 1)
     \<and> (W_Release \<in># workers s \<longrightarrow>
          0 < sem s
          \<and> step net cfg s
              (s\<lparr>workers := add_mset W_Done (workers s - {#W_Release#}), sem := sem s - 1\<rparr>))
     \<and> (net_total net \<longrightarrow> (\<forall>w\<in>#workers s. executing w \<longrightarrow> slot_returned net cfg s w))
     \<and> (finished s \<longrightarrow> in_flight s = 0 \<and> sem s = 0)
     \<and> (1 \<le> threads cfg \<and> net_total net \<and> \<not> finished s \<longrightarrow> (\<exists>s'. step net cfg s s'))"
proof (intro conjI allI impI ballI)
  from reachable_inv[OF assms] show "int (in_flight s) \<le> max 0 (threads cfg)"
    by (simp add: sched_inv_def)
  from reachable_inv[OF assms] show "sem s = in_flight s + main_ticket (main s)"
    by (simp add: sched_inv_def)
next
  fix s' assume "step net cfg s s' \<and> in_flight s < in_flight s'"
  with step_tickets[of net cfg s s']
  show "main_ticket (main s) = 1" "sem s' = sem s" by simp_all
next
  fix s' assume "step net cfg s s' \<and> in_flight s' < in_flight s"
  with step_tickets[of net cfg s s'] show "sem s' = sem s - 1" by simp
next
  assume w: "W_Release \<in># workers s"
  from release_enabled[OF assms w]
  show "0 < sem s" "step net cfg s
      (s\<lparr>workers := add_mset W_Done (workers s - {#W_Release#}), sem := sem s - 1\<rparr>)"
    by simp_all
next
  fix w assume "net_total net" "w \<in># workers s" "executing w"
  with assms show "slot_returned net cfg s w" by (rule executing_slot_returned)
next
  assume "finished s"
  with assms show "in_flight s = 0" "sem s = 0" by (rule finished_slots_back)+
next
  assume a: "1 \<le> threads cfg \<and> net_total net \<and> \<not> finished s"
  from a have "1 \<le> threads cfg" "net_total net" "\<not> finished s" by simp_all
  with reachable_inv[OF assms] show "\<exists>s'. step net cfg s s'" by (rule no_deadlock)
qed

theorem C2_witness:
  "in_flight \<lparr>main = M_Loop [], workers = {#W_Scan 80#}, sem = 1, wg = 1, closed = False,
      collector = C_Recv, results = [], handed = [], panicked = False\<rparr> = 1"
proof -
  let ?cfg = "\<lparr>threads = 1, resolvedIP = ''10.0.0.1'', timeoutDuration = 500 * Millisecond\<rparr>"
  let ?st = "\<lambda>m W k g.
     \<lparr>main = m, workers = W, sem = k, wg = g, closed = False, collector = C_Recv,
      results = [], handed = [], panicked = False\<rparr>"
  have 0: "reachable any_net ?cfg [80] (?st (M_Loop [80]) {#} 0 0)"
    using reach_init[of any_net ?cfg "[80]"] by (simp add: init_def)
  have 1: "reachable any_net ?cfg [80] (?st (M_Acquire 80 []) {#} 0 1)"
    using reach_step[OF 0 step.loop_next[of _ 80 "[]"]] by simp
  have 2: "reachable any_net ?cfg [80] (?st (M_Launch 80 []) {#} 1 1)"
    using reach_step[OF 1 step.acquire[of _ 80 "[]"]] by simp
  have 3: "reachable any_net ?cfg [80] (?st (M_Loop []) {#W_Scan 80#} 1 1)"
    using reach_step[OF 2 step.launch[of _ 80 "[]"]] by simp
  from C2_concurrency_ceiling[OF 3, THEN conjunct2, THEN conjunct1] show ?thesis by simp
qed

lemma final_results_sorted: "sorted (map Port (final_results s))"
  by (simp add: final_results_def)

lemma mset_final_results: "mset (final_results s) = mset (results s)"
  by (simp add: final_results_def)

lemma distinct_final_ports:
  assumes inv: "sched_inv net cfg ports s" and f: "finished s" and d: "distinct ports"
  shows "distinct (map Port (final_results s))"
proof -
  from finished_complete(1)[OF inv f] d have "distinct (map Port (handed s))"
    by (metis mset_eq_imp_distinct_iff)
  then have "distinct (map Port (filter is_open (handed s)))"
    by (rule distinct_map_filter)
  with finished_complete(4)[OF inv f] have "distinct (map Port (results s))" by simp
  moreover have "mset (map Port (final_results s)) = mset (map Port (results s))"
    by (simp add: mset_final_results)
  ultimately show ?thesis by (metis mset_eq_imp_distinct_iff)
qed

text \<open>
  Claim C3, as amended: for every order of the ports and every list of ports the final
  results are sorted by port and are exactly the open results handed over; when no port
  occurs twice in the list they are strictly ascending, with no two entries for the same
  port.
\<close>

theorem C3_final_results_sorted:
  assumes "reachable net cfg ports s" "finished s"
  shows "sorted (map Port (final_results s))
     \<and> mset (final_results s) = mset (filter is_open (handed s))
     \<and> (distinct ports \<longrightarrow>
          sorted_wrt (<) (map Port (final_results s)) \<and> distinct (map Port (final_results s)))"
proof (intro conjI impI)
  note inv = reachable_inv[OF assms(1)]
  show "sorted (map Port (final_results s))" by (rule final_results_sorted)
  show "mset (final_results s) = mset (filter is_open (handed s))"
    using finished_complete(4)[OF inv assms(2)] by (simp add: mset_final_results)
  assume d: "distinct ports"
  from distinct_final_ports[OF inv assms(2) d]
  show "distinct (map Port (final_results s))" .
  with final_results_sorted[of s] show "sorted_wrt (<) (map Port (final_results s))"
    by (simp add: strict_sorted_iff)
qed

theorem C3_witness:
  "sorted_wrt (<)
     (map Port (final_results (seq_final (map (probe default_config accept_all) [443, 22, 80]))))"
proof -
  let ?s = "seq_final (map (probe default_config accept_all) [443, 22, 80])"
  have c: "1 \<le> threads default_config" by (simp add: default_config_def)
  have r: "reachable any_net default_config [443, 22, 80] ?s"
    using c by (rule sequential_run) (simp add: any_net_def)
  have f: "finished ?s" by (simp add: finished_def seq_final_def)
  have d: "distinct [443, 22, 80 :: int]" by simp
  from C3_final_results_sorted[OF r f] d show ?thesis by blast
qed

text \<open>Claim C3 as stated allows duplicates in the list of ports. A port that is listed
  twice is probed twice, and when it is open the final results hold two entries for it.\<close>

theorem C3_duplicate_ports_kept:
  "reachable any_net default_config [80, 80]
     (seq_final (map (probe default_config accept_all) [80, 80]))
   \<and> finished (seq_final (map (probe default_config accept_all) [80, 80]))
   \<and> map Port (final_results (seq_final (map (probe default_config accept_all) [80, 80])))
       = [80, 80]"
proof -
  let ?s = "seq_final (map (probe default_config accept_all) [80, 80])"
  have c: "1 \<le> threads default_config" by (simp add: default_config_def)
  have r: "reachable any_net default_config [80, 80] ?s"
    using c by (rule sequential_run) (simp add: any_net_def)
  have f: "finished ?s" by (simp add: finished_def seq_final_def)
  have p: "map Port (final_results ?s) = [80, 80]"
    by (simp add: final_results_def seq_final_def accept_all_open Port_probe)
  from r f p show ?thesis by simp
qed

lemma main_ports_7999_8001: "main_ports ''7999-8001'' = Some [7999, 8000, 8001]"
  by code_simp

lemma probed_only_8000:
  assumes "probed only_8000 cfg r"
  shows "(Port r = 8000 \<and> is_open r \<and>
          (r = \<lparr>Port = 8000, State = ''open'', Service = ''unknown''\<rparr>
           \<or> r = \<lparr>Port = 8000, State = ''open'', Service = ''custom-service''\<rparr>))
       \<or> (Port r \<noteq> 8000 \<and> \<not> is_open r)"
proof -
  from assms obtain d where d: "only_8000 (Port r) d"
    and r: "r = fst (scanPort d (resolvedIP cfg) (Port r) (timeoutDuration cfg))"
    unfolding probed_def by blast
  show ?thesis
  proof (cases "Port r = 8000")
    case True
    with d obtain c where dc: "d = (Some c, None)"
      by (cases d; cases "fst d"; cases "snd d") (simp_all add: only_8000_def)
    from r[unfolded dc True] scanPort_open_unlisted[OF commonPorts_8000, of c "resolvedIP cfg" "timeoutDuration cfg"]
    have "r = \<lparr>Port = 8000, State = ''open'',
      Service = (if SetReadDeadline_err c = None \<and> Read_err c = None then ''custom-service''
                 else ''unknown'')\<rparr>" by simp
    then show ?thesis
      by (cases "SetReadDeadline_err c = None \<and> Read_err c = None") (simp_all add: is_open_def)
  next
    case False
    with d obtain e where de: "d = (None, Some e)" "\<not> Timeout e"
      by (cases d; cases "fst d"; cases "snd d") (simp_all add: only_8000_def)
    have "State (fst (scanPort d (resolvedIP cfg) (Port r) (timeoutDuration cfg))) = ''closed''"
      unfolding State_scanPort using de by (simp add: dial_ok_def dial_timed_out_def)
    with r have "State r = ''closed''" by simp
    with False show ?thesis by (simp add: is_open_def)
  qed
qed

lemma length_filter_count:
  "length (filter (\<lambda>r. f r = k) xs) = count (mset (map f xs)) k"
  by (induction xs) auto

lemma only_8000_http: "only_8000 p (http_on_8000 p)"
  by (simp add: only_8000_def http_on_8000_def refused_def)

lemma probe_http_on_8000:
  "map (probe default_config http_on_8000) [7999, 8000, 8001] =
     [\<lparr>Port = 7999, State = ''closed'', Service = ''unknown''\<rparr>,
      \<lparr>Port = 8000, State = ''open'', Service = ''unknown''\<rparr>,
      \<lparr>Port = 8001, State = ''closed'', Service = ''unknown''\<rparr>]"
  by (simp add: probe_def http_on_8000_def scanPort_def Let_def commonPorts_def refused_def
      silent_conn_def)

text \<open>
  Claim C5, as amended: scanning "7999-8001" on a host where only port 8000 accepts
  connections scans 3 ports and reports exactly port 8000, open, with the service unknown,
  or custom-service when bytes arrived before the read deadline: port 8000 is not in the
  table of well-known ports.
\<close>

theorem C5_scan_7999_8001:
  assumes "main_ports ''7999-8001'' = Some ports" "reachable only_8000 cfg ports s" "finished s"
  shows "length ports = 3
     \<and> (final_results s = [\<lparr>Port = 8000, State = ''open'', Service = ''unknown''\<rparr>]
        \<or> final_results s = [\<lparr>Port = 8000, State = ''open'', Service = ''custom-service''\<rparr>])"
proof -
  from assms(1) have ports: "ports = [7999, 8000, 8001]"
    by (simp add: main_ports_7999_8001)
  note inv = reachable_inv[OF assms(2)]
  from inv have pr: "\<forall>r\<in>set (handed s). probed only_8000 cfg r" by (simp add: sched_inv_def)
  have "filter is_open (handed s) = filter (\<lambda>r. Port r = 8000) (handed s)"
    using pr probed_only_8000[of cfg] by (intro filter_cong) auto
  with finished_complete(4)[OF inv assms(3)]
  have res: "results s = filter (\<lambda>r. Port r = 8000) (handed s)" by simp
  have "length (results s) = count (mset (map Port (handed s))) 8000"
    unfolding res by (rule length_filter_count)
  also have "\<dots> = 1"
    using finished_complete(1)[OF inv assms(3)] ports by simp
  finally obtain r where r: "results s = [r]"
    by (cases "results s") auto
  then have "r \<in> set (filter (\<lambda>r. Port r = 8000) (handed s))" using res by simp
  then have "Port r = 8000" "probed only_8000 cfg r" using pr by auto
  with probed_only_8000[of cfg r]
  have "r = \<lparr>Port = 8000, State = ''open'', Service = ''unknown''\<rparr>
      \<or> r = \<lparr>Port = 8000, State = ''open'', Service = ''custom-service''\<rparr>" by blast
  with r ports show ?thesis by (auto simp: final_results_def)
qed

theorem C5_witness:
  "final_results (seq_final (map (probe default_config http_on_8000) [7999, 8000, 8001]))
     = [\<lparr>Port = 8000, State = ''open'', Service = ''unknown''\<rparr>]"
proof -
  let ?s = "seq_final (map (probe default_config http_on_8000) [7999, 8000, 8001])"
  have c: "1 \<le> threads default_config" by (simp add: default_config_def)
  have r: "reachable only_8000 default_config [7999, 8000, 8001] ?s"
    using c by (rule sequential_run) (simp add: only_8000_http)
  have f: "finished ?s" by (simp add: finished_def seq_final_def)
  have "final_results ?s \<noteq> [\<lparr>Port = 8000, State = ''open'', Service = ''custom-service''\<rparr>]"
    unfolding probe_http_on_8000 by (simp add: final_results_def seq_final_def is_open_def)
  with C5_scan_7999_8001[OF main_ports_7999_8001 r f] show ?thesis by blast
qed

text \<open>Claim C5 as stated names the service of port 8000 "HTTP". On a host whose port
  8000 is an HTTP server waiting for a request, the run that scans one port at a time ends
  with a different report.\<close>

theorem C5_port_8000_not_named_HTTP:
  "main_ports ''7999-8001'' = Some [7999, 8000, 8001]
   \<and> reachable only_8000 default_config [7999, 8000, 8001]
       (seq_final (map (probe default_config http_on_8000) [7999, 8000, 8001]))
   \<and> finished (seq_final (map (probe default_config http_on_8000) [7999, 8000, 8001]))
   \<and> final_results (seq_final (map (probe default_config http_on_8000) [7999, 8000, 8001]))
       \<noteq> [\<lparr>Port = 8000, State = ''open'', Service = ''HTTP''\<rparr>]"
proof -
  let ?s = "seq_final (map (probe default_config http_on_8000) [7999, 8000, 8001])"
  have c: "1 \<le> threads default_config" by (simp add: default_config_def)
  have r: "reachable only_8000 default_config [7999, 8000, 8001] ?s"
    using c by (rule sequential_run) (simp add: only_8000_http)
  have f: "finished ?s" by (simp add: finished_def seq_final_def)
  have n: "final_results ?s \<noteq> [\<lparr>Port = 8000, State = ''open'', Service = ''HTTP''\<rparr>]"
    unfolding probe_http_on_8000 by (simp add: final_results_def seq_final_def is_open_def)
  from main_ports_7999_8001 r f n show ?thesis by blast
qed

end

